theory Spec2Isabelle
  imports Main "HOL-Library.Multiset" "HOL-Library.AList"
begin

section \<open>Data model\<close>

text \<open>
  The reactivity core of \<^verbatim>\<open>src/core/observer\<close>: \<^verbatim>\<open>dep.js\<close> (the class Dep and the stack of
  targets) and \<^verbatim>\<open>index.js\<close> (Observer, observe, defineReactive, set, del, dependArray).

  JavaScript values. Numbers are the integers and NaN (fractions, infinities and the sign
  of zero play no part in the code modelled here); a reference is the address of an
  object of the heap.
\<close>

datatype val = Undefined | Null | Bool bool | Num int | NaN | Str string | Ref nat

text \<open>
  Property keys. \<open>Idx n\<close> is the key that is the number \<open>n\<close> (or its canonical decimal
  string), \<open>Name s\<close> any other property name.
\<close>

datatype key = Idx nat | Name string

text \<open>
  A subscriber (the class Watcher of \<^verbatim>\<open>watcher.js\<close>) is consumed only through its
  \<^verbatim>\<open>id\<close>, \<^verbatim>\<open>addDep\<close> and \<^verbatim>\<open>update\<close>. The calls the core makes on subscribers and on the
  \<^verbatim>\<open>customSetter\<close> hook are recorded, in order, in the field \<open>calls\<close> of the state.
  What a subscriber does inside \<^verbatim>\<open>addDep\<close> and \<^verbatim>\<open>update\<close> belongs to \<^verbatim>\<open>watcher.js\<close> and to
  the scheduler, which are not among the sources: the model records the call and goes on.
\<close>

datatype watcher = Watcher (wid: nat)

datatype call = AddDep watcher nat | Update watcher | CustomSetter

text \<open>
  An accessor, as \<^verbatim>\<open>defineReactive\<close> meets and makes them. \<open>Pair g st c\<close> is a pair
  defined outside this module: whether it has a getter, whether it has a setter, and a
  cell (its getter returns the cell, its setter stores into it, and neither does
  anything else). \<open>Closure d v childOb customSetter shallow found\<close> is the pair
  \<^verbatim>\<open>reactiveGetter\<close>/\<^verbatim>\<open>reactiveSetter\<close> that \<^verbatim>\<open>defineReactive\<close> installs: the id of its
  \<^verbatim>\<open>dep\<close>, its variables \<^verbatim>\<open>val\<close> and \<^verbatim>\<open>childOb\<close>, the arguments \<^verbatim>\<open>customSetter\<close> (whether
  there is one) and \<^verbatim>\<open>shallow\<close>, and the accessor it found at the key (\<^verbatim>\<open>getter\<close> and
  \<^verbatim>\<open>setter\<close>), which may itself be a pair that \<^verbatim>\<open>defineReactive\<close> installed earlier.
\<close>

datatype accessor =
    Pair bool bool val
  | Closure nat val "nat option" bool bool "accessor option"

text \<open>
  An own property: a data property (value, enumerable, configurable) or an accessor
  property (accessor, enumerable, configurable). Every data property is writable.
\<close>

datatype property =
    Data val bool bool
  | Acc accessor bool bool

datatype kind = PlainObject | Array | VNode | Other

text \<open>
  An object of the heap. \<open>isVue\<close> is an own property \<^verbatim>\<open>_isVue\<close> that is truthy; \<open>props\<close>
  lists the own properties in the order of \<^verbatim>\<open>Object.keys\<close>; \<open>elems\<close> are the elements
  of an array, \<open>None\<close> for a hole; \<open>proto\<close> is the prototype when it is an object of the
  heap, and \<open>inherited\<close> are the keys of the prototypes of the language that end the
  chain (those of \<^verbatim>\<open>Object.prototype\<close> for an object literal); \<open>marker\<close> is the hidden
  own property \<^verbatim>\<open>__ob__\<close> when it holds an Observer, which is kept apart from \<open>props\<close> (it
  is not enumerable). The prototype of an array is one of the language (or
  \<^verbatim>\<open>arrayMethods\<close>), and the elements of an array are data properties.
\<close>

record obj =
  kind :: kind
  isVue :: bool
  extensible :: bool
  props :: "(key \<times> property) list"
  elems :: "val option list"
  proto :: "nat option"
  inherited :: "key list"
  marker :: "nat option"

text \<open>An instance of the class Observer (\<^verbatim>\<open>index.js\<close>, lines 38 to 109).\<close>

record observer =
  ob_value :: nat
  ob_dep :: nat
  vmCount :: nat

text \<open>
  The state of the module: the heap, the Observer instances, the subscriber list
  \<^verbatim>\<open>subs\<close> of every Dep (by \<^verbatim>\<open>id\<close>), the counter \<^verbatim>\<open>uid\<close>, \<^verbatim>\<open>Dep.target\<close> and
  \<^verbatim>\<open>targetStack\<close>, \<^verbatim>\<open>shouldObserve\<close>, and the environment:
  \<^verbatim>\<open>process.env.NODE_ENV === 'production'\<close>, \<^verbatim>\<open>config.async\<close>, \<^verbatim>\<open>isServerRendering()\<close>.
  A target that is \<^verbatim>\<open>null\<close> or \<^verbatim>\<open>undefined\<close> is \<open>None\<close>: the code only tests whether
  \<^verbatim>\<open>Dep.target\<close> is truthy.
\<close>

record state =
  heap :: "obj list"
  observers :: "nat \<Rightarrow> observer"
  nextOb :: nat
  subs :: "nat \<Rightarrow> watcher list"
  uid :: nat
  target :: "watcher option"
  targetStack :: "watcher option list"
  shouldObserve :: bool
  production :: bool
  configAsync :: bool
  serverRendering :: bool
  calls :: "call list"

section \<open>dep.js\<close>

text \<open>\<^verbatim>\<open>new Dep()\<close>: \<^verbatim>\<open>this.id = uid++; this.subs = []\<close>.\<close>

definition newDep :: "state \<Rightarrow> nat \<times> state" where
  "newDep s = (uid s, s\<lparr>subs := (subs s)(uid s := []), uid := uid s + 1\<rparr>)"

definition addSub :: "nat \<Rightarrow> watcher \<Rightarrow> state \<Rightarrow> state" where
  "addSub d w s = s\<lparr>subs := (subs s)(d := subs s d @ [w])\<rparr>"

text \<open>
  Modelled from the spec: \<^verbatim>\<open>remove\<close> of \<^verbatim>\<open>util/index\<close>, which is not among the sources
  ("remove by identity; no-op if absent").
\<close>

definition removeSub :: "nat \<Rightarrow> watcher \<Rightarrow> state \<Rightarrow> state" where
  "removeSub d w s = s\<lparr>subs := (subs s)(d := remove1 w (subs s d))\<rparr>"

text \<open>\<^verbatim>\<open>depend\<close>: \<^verbatim>\<open>if (Dep.target) Dep.target.addDep(this)\<close>.\<close>

definition depend :: "nat \<Rightarrow> state \<Rightarrow> state" where
  "depend d s =
     (case target s of
        Some w \<Rightarrow> s\<lparr>calls := calls s @ [AddDep w d]\<rparr>
      | None \<Rightarrow> s)"

text \<open>
  \<^verbatim>\<open>notify\<close>: the snapshot \<^verbatim>\<open>this.subs.slice()\<close>, sorted by id (the sort of the language
  is stable) when the build is not a production build and \<^verbatim>\<open>config.async\<close> is off, then
  \<^verbatim>\<open>update()\<close> on each element in turn.
\<close>

definition notify_order :: "state \<Rightarrow> watcher list \<Rightarrow> watcher list" where
  "notify_order s ws =
     (if \<not> production s \<and> \<not> configAsync s then sort_key wid ws else ws)"

definition notify :: "nat \<Rightarrow> state \<Rightarrow> state" where
  "notify d s = s\<lparr>calls := calls s @ map Update (notify_order s (subs s d))\<rparr>"

text \<open>\<^verbatim>\<open>pushTarget\<close> and \<^verbatim>\<open>popTarget\<close> (lines 81 to 89).\<close>

definition pushTarget :: "watcher option \<Rightarrow> state \<Rightarrow> state" where
  "pushTarget t s = s\<lparr>targetStack := targetStack s @ [t], target := t\<rparr>"

text \<open>
  \<^verbatim>\<open>targetStack.pop()\<close> on an empty array removes nothing and returns \<^verbatim>\<open>undefined\<close>;
  \<^verbatim>\<open>targetStack[targetStack.length - 1]\<close> on an empty array is \<^verbatim>\<open>undefined\<close>.
\<close>

definition popTarget :: "state \<Rightarrow> state" where
  "popTarget s =
     (let st = butlast (targetStack s)
      in s\<lparr>targetStack := st, target := (if st = [] then None else last st)\<rparr>)"

text \<open>
  The state when the modules are loaded, over a heap \<open>h\<close> and an environment: \<^verbatim>\<open>uid = 0\<close>,
  \<^verbatim>\<open>Dep.target = null\<close>, \<^verbatim>\<open>targetStack = []\<close>, \<^verbatim>\<open>shouldObserve = true\<close>.
\<close>

definition initial :: "obj list \<Rightarrow> bool \<Rightarrow> bool \<Rightarrow> bool \<Rightarrow> state" where
  "initial h prd asy ssr =
     \<lparr>heap = h, observers = (\<lambda>_. \<lparr>ob_value = 0, ob_dep = 0, vmCount = 0\<rparr>), nextOb = 0,
      subs = (\<lambda>_. []), uid = 0, target = None, targetStack = [], shouldObserve = True,
      production = prd, configAsync = asy, serverRendering = ssr, calls = []\<rparr>"

text \<open>
  In every state that \<^verbatim>\<open>pushTarget\<close> and \<^verbatim>\<open>popTarget\<close> produce from the initial one,
  \<^verbatim>\<open>Dep.target\<close> is the top of the stack, and no subscriber when the stack is empty.
\<close>

definition target_is_top :: "state \<Rightarrow> bool" where
  "target_is_top s \<longleftrightarrow>
     target s = (if targetStack s = [] then None else last (targetStack s))"



section \<open>index.js\<close>

subsection \<open>Objects and properties\<close>

definition lookup :: "state \<Rightarrow> nat \<Rightarrow> obj option" where
  "lookup s a = (if a < length (heap s) then Some (heap s ! a) else None)"

definition update_obj :: "nat \<Rightarrow> (obj \<Rightarrow> obj) \<Rightarrow> state \<Rightarrow> state" where
  "update_obj a f s = s\<lparr>heap := (heap s)[a := f (heap s ! a)]\<rparr>"

text \<open>\<^verbatim>\<open>Object.getOwnPropertyDescriptor(obj, key)\<close>.\<close>

definition getOwnProperty :: "obj \<Rightarrow> key \<Rightarrow> property option" where
  "getOwnProperty ob k = map_of (props ob) k"

fun configurable :: "property \<Rightarrow> bool" where
  "configurable (Data v e c) = c"
| "configurable (Acc acc e c) = c"

fun enumerable :: "property \<Rightarrow> bool" where
  "enumerable (Data v e c) = e"
| "enumerable (Acc acc e c) = e"

text \<open>
  Whether an accessor has a getter and a setter; \<^verbatim>\<open>property && property.get\<close> and
  \<^verbatim>\<open>property && property.set\<close> of lines 194 and 195, as truth values, for the accessor
  found at the key (\<open>None\<close> when the key holds a data property or nothing).
\<close>

fun acc_get :: "accessor \<Rightarrow> bool" where
  "acc_get (Pair g st c) = g"
| "acc_get (Closure d v childOb customSetter shallow found) = True"

fun acc_set :: "accessor \<Rightarrow> bool" where
  "acc_set (Pair g st c) = st"
| "acc_set (Closure d v childOb customSetter shallow found) = True"

definition has_getter :: "accessor option \<Rightarrow> bool" where
  "has_getter found = (case found of Some acc \<Rightarrow> acc_get acc | None \<Rightarrow> False)"

definition has_setter :: "accessor option \<Rightarrow> bool" where
  "has_setter found = (case found of Some acc \<Rightarrow> acc_set acc | None \<Rightarrow> False)"

definition under_of :: "property option \<Rightarrow> accessor option" where
  "under_of property = (case property of Some (Acc acc e c) \<Rightarrow> Some acc | _ \<Rightarrow> None)"

text \<open>\<^verbatim>\<open>Object.keys(obj)\<close>: the enumerable own keys.\<close>

definition keys :: "obj \<Rightarrow> key list" where
  "keys ob = map fst (filter (\<lambda>kp. enumerable (snd kp)) (props ob))"

text \<open>\<^verbatim>\<open>Object.defineProperty(obj, key, ...)\<close> on the own properties.\<close>

definition defineProperty :: "key \<Rightarrow> property \<Rightarrow> obj \<Rightarrow> obj" where
  "defineProperty k p ob = ob\<lparr>props := AList.update k p (props ob)\<rparr>"

text \<open>\<^verbatim>\<open>toggleObserving\<close>.\<close>

definition toggleObserving :: "bool \<Rightarrow> state \<Rightarrow> state" where
  "toggleObserving b s = s\<lparr>shouldObserve := b\<rparr>"

text \<open>
  Modelled from the spec: \<^verbatim>\<open>isObject\<close> of \<^verbatim>\<open>util/index\<close>, which is not among the sources
  ("non-object values are never observed"). It gives the object a value refers to, if it
  is a reference to one.
\<close>

definition isObject :: "state \<Rightarrow> val \<Rightarrow> (nat \<times> obj) option" where
  "isObject s v =
     (case v of
        Ref a \<Rightarrow> (case lookup s a of Some ob \<Rightarrow> Some (a, ob) | None \<Rightarrow> None)
      | _ \<Rightarrow> None)"

subsection \<open>The prototype chain\<close>

text \<open>
  The objects of the heap along the prototype chain of \<open>a\<close>, from \<open>a\<close> itself. The
  language keeps the chain free of cycles, so that it has no more objects than the heap.
\<close>

fun chain :: "nat \<Rightarrow> obj list \<Rightarrow> nat \<Rightarrow> nat list" where
  "chain 0 h a = []"
| "chain (Suc n) h a =
     (if a < length h
      then a # (case proto (h ! a) of None \<Rightarrow> [] | Some b \<Rightarrow> chain n h b)
      else [])"

definition protoChain :: "state \<Rightarrow> nat \<Rightarrow> nat list" where
  "protoChain s a = chain (length (heap s)) (heap s) a"

text \<open>
  The property that a read or a write of \<^verbatim>\<open>target[key]\<close> finds, with the object that
  owns it; \<^verbatim>\<open>target.__ob__\<close> when it is an Observer; \<^verbatim>\<open>target._isVue\<close> as a truth value.
  All three go along the prototype chain.
\<close>

definition find_prop :: "state \<Rightarrow> nat \<Rightarrow> key \<Rightarrow> (nat \<times> property) option" where
  "find_prop s a k =
     (case List.map_filter
             (\<lambda>b. map_option (\<lambda>p. (b, p)) (getOwnProperty (heap s ! b) k)) (protoChain s a) of
        [] \<Rightarrow> None
      | x # xs \<Rightarrow> Some x)"

definition find_marker :: "state \<Rightarrow> nat \<Rightarrow> nat option" where
  "find_marker s a =
     (case List.map_filter (\<lambda>b. marker (heap s ! b)) (protoChain s a) of
        [] \<Rightarrow> None
      | i # xs \<Rightarrow> Some i)"

definition isVue_in :: "state \<Rightarrow> nat \<Rightarrow> bool" where
  "isVue_in s a \<longleftrightarrow> (\<exists>b \<in> set (protoChain s a). isVue (heap s ! b))"

subsection \<open>dependArray and reactiveGetter\<close>

text \<open>\<^verbatim>\<open>===\<close> on the values of the model: NaN is not equal to itself.\<close>

definition strict_eq :: "val \<Rightarrow> val \<Rightarrow> bool" where
  "strict_eq x y \<longleftrightarrow> x = y \<and> x \<noteq> NaN"

text \<open>
  The elements of the array a value refers to (\<^verbatim>\<open>Array.isArray\<close>), a hole read as
  \<^verbatim>\<open>undefined\<close>, and \<^verbatim>\<open>e && e.__ob__ && e.__ob__.dep.depend()\<close>.
\<close>

definition item :: "val option \<Rightarrow> val" where
  "item e = (case e of Some v \<Rightarrow> v | None \<Rightarrow> Undefined)"

definition array_items :: "state \<Rightarrow> val \<Rightarrow> val list option" where
  "array_items s v =
     (case isObject s v of
        Some p \<Rightarrow> (if kind (snd p) = Array then Some (map item (elems (snd p))) else None)
      | None \<Rightarrow> None)"

definition depend_elem :: "val \<Rightarrow> state \<Rightarrow> state" where
  "depend_elem e s =
     (case isObject s e of
        Some p \<Rightarrow>
          (case find_marker s (fst p) of
             Some i \<Rightarrow> depend (ob_dep (observers s i)) s
           | None \<Rightarrow> s)
      | None \<Rightarrow> s)"

text \<open>
  \<^verbatim>\<open>dependArray\<close> (lines 325 to 333) descends into nested arrays and does not return on
  an array that contains itself: the first argument bounds the depth of the descent, and
  \<open>None\<close> is "no result within the bound".
\<close>

fun dependArray_fuel :: "nat \<Rightarrow> val list \<Rightarrow> state \<Rightarrow> state option" where
  "dependArray_fuel n [] s = Some s"
| "dependArray_fuel n (e # es) s =
     (case (case array_items s e of
              None \<Rightarrow> Some (depend_elem e s)
            | Some xs \<Rightarrow>
                (case n of
                   0 \<Rightarrow> None
                 | Suc m \<Rightarrow> dependArray_fuel m xs (depend_elem e s))) of
        None \<Rightarrow> None
      | Some s1 \<Rightarrow> dependArray_fuel n es s1)"

text \<open>
  Lines 214 to 223 of \<^verbatim>\<open>reactiveGetter\<close>, for the Dep \<open>d\<close>, the variable \<^verbatim>\<open>childOb\<close> and
  the value read: what is registered with the target.
\<close>

definition collect :: "nat \<Rightarrow> nat \<Rightarrow> nat option \<Rightarrow> val \<Rightarrow> state \<Rightarrow> (state \<times> val) option" where
  "collect n d childOb v s =
     (case target s of
        None \<Rightarrow> Some (s, v)
      | Some w \<Rightarrow>
          (case childOb of
             None \<Rightarrow> Some (depend d s, v)
           | Some c \<Rightarrow>
               (case array_items s v of
                  None \<Rightarrow> Some (depend (ob_dep (observers s c)) (depend d s), v)
                | Some xs \<Rightarrow>
                    (case dependArray_fuel n xs (depend (ob_dep (observers s c)) (depend d s)) of
                       None \<Rightarrow> None
                     | Some s3 \<Rightarrow> Some (s3, v)))))"

text \<open>
  The getter of an accessor, called on the object. For a closure of \<^verbatim>\<open>defineReactive\<close>
  it is \<^verbatim>\<open>reactiveGetter\<close> (lines 209 to 224): \<^verbatim>\<open>getter ? getter.call(obj) : val\<close> runs
  the getter found at the key, with all it does, before anything is registered.
\<close>

fun reactiveGetter_fuel :: "nat \<Rightarrow> accessor \<Rightarrow> state \<Rightarrow> (state \<times> val) option" where
  "reactiveGetter_fuel n (Pair g st c) s = Some (s, c)"
| "reactiveGetter_fuel n (Closure d v childOb customSetter shallow found) s =
     (case (case found of
              None \<Rightarrow> Some (s, v)
            | Some acc \<Rightarrow> if acc_get acc then reactiveGetter_fuel n acc s else Some (s, v)) of
        None \<Rightarrow> None
      | Some r \<Rightarrow> collect n d childOb (snd r) (fst r))"

text \<open>The value such a getter returns.\<close>

fun value_of :: "accessor \<Rightarrow> val" where
  "value_of (Pair g st c) = c"
| "value_of (Closure d v childOb customSetter shallow found) =
     (case found of
        None \<Rightarrow> v
      | Some acc \<Rightarrow> if acc_get acc then value_of acc else v)"

text \<open>
  The read \<^verbatim>\<open>obj[key]\<close>: an element or the length of an array, or the property found
  along the prototype chain, through its getter if it is an accessor. The values of the
  prototypes of the language are not modelled, and \<^verbatim>\<open>__ob__\<close> is not read as a value.
\<close>

definition own_special :: "obj \<Rightarrow> key \<Rightarrow> val option" where
  "own_special ob k =
     (if kind ob = Array
      then (case k of
              Idx i \<Rightarrow> (if i < length (elems ob) then elems ob ! i else None)
            | Name x \<Rightarrow> (if x = ''length'' then Some (Num (int (length (elems ob)))) else None))
      else None)"

definition get_fuel :: "nat \<Rightarrow> state \<Rightarrow> nat \<Rightarrow> key \<Rightarrow> (state \<times> val) option" where
  "get_fuel n s a k =
     (case lookup s a of
        None \<Rightarrow> Some (s, Undefined)
      | Some ob \<Rightarrow>
          (case own_special ob k of
             Some v \<Rightarrow> Some (s, v)
           | None \<Rightarrow>
               (case find_prop s a k of
                  None \<Rightarrow> Some (s, Undefined)
                | Some bp \<Rightarrow>
                    (case snd bp of
                       Data v e c \<Rightarrow> Some (s, v)
                     | Acc acc e c \<Rightarrow>
                         if acc_get acc then reactiveGetter_fuel n acc s
                         else Some (s, Undefined)))))"

subsection \<open>Observer, observe, defineReactive\<close>

text \<open>
  The constructor of Observer up to \<^verbatim>\<open>def(value, '__ob__', this)\<close>: a new Dep,
  \<^verbatim>\<open>vmCount = 0\<close>, and the marker on the value. For an array the constructor then puts
  the wrapped methods of \<^verbatim>\<open>array.js\<close> in place (\<^verbatim>\<open>protoAugment\<close>, \<^verbatim>\<open>copyAugment\<close>): in
  the model an array has the wrapped methods exactly when it has the marker.
\<close>

definition newObserver :: "nat \<Rightarrow> state \<Rightarrow> nat \<times> state" where
  "newObserver a s =
     (let (d, s1) = newDep s; i = nextOb s1
      in (i, update_obj a (\<lambda>ob. ob\<lparr>marker := Some i\<rparr>)
               (s1\<lparr>observers := (observers s1)(i := \<lparr>ob_value = a, ob_dep = d, vmCount = 0\<rparr>),
                   nextOb := i + 1\<rparr>)))"

text \<open>\<^verbatim>\<open>if (asRootData && ob) ob.vmCount++\<close>.\<close>

definition countRoot :: "bool \<Rightarrow> nat option \<Rightarrow> state \<Rightarrow> state" where
  "countRoot asRootData ob s =
     (case ob of
        Some i \<Rightarrow>
          (if asRootData
           then s\<lparr>observers := (observers s)(i := (observers s i)\<lparr>vmCount := vmCount (observers s i) + 1\<rparr>)\<rparr>
           else s)
      | None \<Rightarrow> s)"

text \<open>
  The conditions of lines 160 to 164 under which \<^verbatim>\<open>observe\<close> constructs an Observer for
  the object \<open>ob\<close> at the address \<open>a\<close>.
\<close>

definition observable :: "state \<Rightarrow> nat \<Rightarrow> obj \<Rightarrow> bool" where
  "observable s a ob \<longleftrightarrow>
     shouldObserve s \<and> \<not> serverRendering s \<and> (kind ob = Array \<or> kind ob = PlainObject) \<and>
     extensible ob \<and> \<not> isVue_in s a"

text \<open>
  \<^verbatim>\<open>defineReactive\<close>, lines 188 to 198: whether the property found is not configurable,
  and the variable \<^verbatim>\<open>val\<close> after \<^verbatim>\<open>if ((!getter || setter) && arguments.length === 2)
  val = obj[key]\<close>, a read that runs the getter of the key. The argument \<open>valArg = None\<close> is
  the call with two arguments.
\<close>

definition nonconfigurable :: "property option \<Rightarrow> bool" where
  "nonconfigurable property = (case property of Some p \<Rightarrow> \<not> configurable p | None \<Rightarrow> False)"

definition initial_val ::
  "nat \<Rightarrow> state \<Rightarrow> nat \<Rightarrow> property option \<Rightarrow> key \<Rightarrow> val option \<Rightarrow> (state \<times> val) option"
where
  "initial_val n s a property k valArg =
     (case valArg of
        Some v \<Rightarrow> Some (s, v)
      | None \<Rightarrow>
          if \<not> has_getter (under_of property) \<or> has_setter (under_of property)
          then get_fuel n s a k else Some (s, Undefined))"

text \<open>
  \<^verbatim>\<open>defineReactive\<close>, lines 204 to 250: \<^verbatim>\<open>Object.defineProperty\<close> installs the accessor
  pair, whose closure holds \<^verbatim>\<open>dep\<close>, \<^verbatim>\<open>val\<close>, \<^verbatim>\<open>childOb\<close>, \<^verbatim>\<open>getter\<close>, \<^verbatim>\<open>setter\<close>,
  \<^verbatim>\<open>customSetter\<close> and \<^verbatim>\<open>shallow\<close>. It assumes that the object is extensible or has the
  key already (otherwise the language raises a TypeError, which \<open>set_fuel\<close> below writes
  before the call).
\<close>

definition install ::
  "nat \<Rightarrow> key \<Rightarrow> nat \<Rightarrow> accessor option \<Rightarrow> val \<Rightarrow> bool \<Rightarrow> bool \<Rightarrow> nat option \<Rightarrow> state \<Rightarrow> state"
where
  "install a k d found v customSetter shallow childOb s =
     update_obj a
       (defineProperty k (Acc (Closure d v childOb customSetter shallow found) True True)) s"

text \<open>
  \<^verbatim>\<open>observe\<close>, the constructor of Observer, \<^verbatim>\<open>observeArray\<close>, \<^verbatim>\<open>walk\<close> and
  \<^verbatim>\<open>defineReactive\<close> call each other along the object graph, which may be cyclic. The
  first argument bounds the number of nested constructions of an Observer, and the depth
  of \<^verbatim>\<open>dependArray\<close> in the getters that are run; \<open>None\<close> is "no result within the bound".
  \<^verbatim>\<open>observeArray\<close> takes the elements as they are when the loop starts: no function here
  changes the elements of an array. An address outside the heap is no object of the
  program; \<^verbatim>\<open>defineReactive\<close> then stops after \<^verbatim>\<open>new Dep()\<close>.
\<close>

function observe_fuel :: "nat \<Rightarrow> state \<Rightarrow> val \<Rightarrow> bool \<Rightarrow> (state \<times> nat option) option"
  and Observer_fuel :: "nat \<Rightarrow> state \<Rightarrow> nat \<Rightarrow> obj \<Rightarrow> (state \<times> nat) option"
  and observeArray_fuel :: "nat \<Rightarrow> state \<Rightarrow> val list \<Rightarrow> state option"
  and walk_fuel :: "nat \<Rightarrow> state \<Rightarrow> nat \<Rightarrow> key list \<Rightarrow> state option"
  and defineReactive_fuel ::
    "nat \<Rightarrow> state \<Rightarrow> nat \<Rightarrow> key \<Rightarrow> val option \<Rightarrow> bool \<Rightarrow> bool \<Rightarrow> state option"
where
  "observe_fuel 0 s v asRootData = None"
| "observe_fuel (Suc n) s v asRootData =
     (case isObject s v of
        None \<Rightarrow> Some (s, None)
      | Some p \<Rightarrow>
          if kind (snd p) = VNode then Some (s, None)
          else
            (case marker (snd p) of
               Some i \<Rightarrow> Some (countRoot asRootData (Some i) s, Some i)
             | None \<Rightarrow>
                 if observable s (fst p) (snd p)
                 then
                   (case Observer_fuel n s (fst p) (snd p) of
                      None \<Rightarrow> None
                    | Some r \<Rightarrow> Some (countRoot asRootData (Some (snd r)) (fst r), Some (snd r)))
                 else Some (s, None)))"
| "Observer_fuel n s a ob =
     (case (if kind ob = Array
            then observeArray_fuel n (snd (newObserver a s)) (map item (elems ob))
            else walk_fuel n (snd (newObserver a s)) a (keys ob)) of
        None \<Rightarrow> None
      | Some s2 \<Rightarrow> Some (s2, fst (newObserver a s)))"
| "observeArray_fuel n s [] = Some s"
| "observeArray_fuel n s (v # vs) =
     (case observe_fuel n s v False of
        None \<Rightarrow> None
      | Some r \<Rightarrow> observeArray_fuel n (fst r) vs)"
| "walk_fuel n s a [] = Some s"
| "walk_fuel n s a (k # ks) =
     (case defineReactive_fuel n s a k None False False of
        None \<Rightarrow> None
      | Some s1 \<Rightarrow> walk_fuel n s1 a ks)"
| "defineReactive_fuel n s a k valArg customSetter shallow =
     (case lookup s a of
        None \<Rightarrow> Some (snd (newDep s))
      | Some ob \<Rightarrow>
          if nonconfigurable (getOwnProperty ob k) then Some (snd (newDep s))
          else
            (case initial_val n (snd (newDep s)) a (getOwnProperty ob k) k valArg of
               None \<Rightarrow> None
             | Some r1 \<Rightarrow>
                 (case (if shallow then Some (fst r1, None)
                        else observe_fuel n (fst r1) (snd r1) False) of
                    None \<Rightarrow> None
                  | Some r \<Rightarrow>
                      Some (install a k (fst (newDep s)) (under_of (getOwnProperty ob k))
                              (snd r1) customSetter shallow (snd r) (fst r)))))"
  by pat_completeness auto

termination
  apply (relation "inv_image (less_than <*lex*> less_than <*lex*> less_than)
        (\<lambda>x. case x of
           Inl (Inl (n, s, v, r)) \<Rightarrow> (n, 1::nat, 0::nat)
         | Inl (Inr (n, s, a, ob)) \<Rightarrow> (n, 4, 0)
         | Inr (Inl (n, s, vs)) \<Rightarrow> (n, 3, length vs)
         | Inr (Inr (Inl (n, s, a, ks))) \<Rightarrow> (n, 3, length ks)
         | Inr (Inr (Inr (n, s, a, k, va, cs, sh))) \<Rightarrow> (n, 2, 0))")
         apply (intro wf_inv_image wf_lex_prod wf_less_than)
        apply simp_all
  done

declare Observer_fuel.simps [simp del] defineReactive_fuel.simps [simp del]

text \<open>
  The number of objects without a marker bounds the nesting of the constructions: an
  Observer is constructed only for an object without a marker, and the marker is set
  before the descent.
\<close>

definition unobserved :: "state \<Rightarrow> nat" where
  "unobserved s = length (filter (\<lambda>ob. marker ob = None) (heap s))"

subsection \<open>reactiveSetter\<close>

text \<open>
  The variables of a closure live in the property it was installed as, under the
  closures that \<^verbatim>\<open>defineReactive\<close> has put over it since. \<open>store_closure\<close> assigns to the
  variables of the closure with Dep \<open>d\<close> at key \<open>k\<close> of object \<open>a\<close>; \<open>store_cell\<close> is the
  setter of the pair defined outside this module, at the bottom.
\<close>

fun with_val :: "val \<Rightarrow> accessor \<Rightarrow> accessor" where
  "with_val x (Closure d v childOb customSetter shallow found) =
     Closure d x childOb customSetter shallow found"
| "with_val x (Pair g st c) = Pair g st c"

fun with_childOb :: "nat option \<Rightarrow> accessor \<Rightarrow> accessor" where
  "with_childOb x (Closure d v childOb customSetter shallow found) =
     Closure d v x customSetter shallow found"
| "with_childOb x (Pair g st c) = Pair g st c"

fun map_closure :: "nat \<Rightarrow> (accessor \<Rightarrow> accessor) \<Rightarrow> accessor \<Rightarrow> accessor" where
  "map_closure d f (Pair g st c) = Pair g st c"
| "map_closure d f (Closure d' v childOb customSetter shallow found) =
     (if d' = d then f (Closure d' v childOb customSetter shallow found)
      else Closure d' v childOb customSetter shallow
             (case found of None \<Rightarrow> None | Some acc \<Rightarrow> Some (map_closure d f acc)))"

fun set_cell :: "val \<Rightarrow> accessor \<Rightarrow> accessor" where
  "set_cell x (Pair g st c) = Pair g st x"
| "set_cell x (Closure d v childOb customSetter shallow found) =
     Closure d v childOb customSetter shallow
       (case found of None \<Rightarrow> None | Some acc \<Rightarrow> Some (set_cell x acc))"

definition store :: "nat \<Rightarrow> key \<Rightarrow> (accessor \<Rightarrow> accessor) \<Rightarrow> state \<Rightarrow> state" where
  "store a k f s =
     update_obj a
       (\<lambda>ob. case getOwnProperty ob k of
                Some (Acc acc e c) \<Rightarrow> defineProperty k (Acc (f acc) e c) ob
              | _ \<Rightarrow> ob) s"

definition store_closure :: "nat \<Rightarrow> key \<Rightarrow> nat \<Rightarrow> (accessor \<Rightarrow> accessor) \<Rightarrow> state \<Rightarrow> state" where
  "store_closure a k d f s = store a k (map_closure d f) s"

definition store_cell :: "nat \<Rightarrow> key \<Rightarrow> val \<Rightarrow> state \<Rightarrow> state" where
  "store_cell a k x s = store a k (set_cell x) s"

text \<open>\<^verbatim>\<open>newVal === value || (newVal !== newVal && value !== value)\<close> of line 231.\<close>

definition unchanged :: "val \<Rightarrow> val \<Rightarrow> bool" where
  "unchanged newVal v \<longleftrightarrow>
     strict_eq newVal v \<or> (\<not> strict_eq newVal newVal \<and> \<not> strict_eq v v)"

text \<open>
  \<^verbatim>\<open>getter ? getter.call(obj) : val\<close> (lines 210 and 229), lines 235 to 237, and lines
  245 to 248 of \<^verbatim>\<open>reactiveSetter\<close>.
\<close>

definition current :: "nat \<Rightarrow> accessor option \<Rightarrow> val \<Rightarrow> state \<Rightarrow> (state \<times> val) option" where
  "current n found v s =
     (case found of
        None \<Rightarrow> Some (s, v)
      | Some acc \<Rightarrow> if acc_get acc then reactiveGetter_fuel n acc s else Some (s, v))"

definition hooked :: "bool \<Rightarrow> state \<Rightarrow> state" where
  "hooked customSetter s =
     (if \<not> production s \<and> customSetter then s\<lparr>calls := calls s @ [CustomSetter]\<rparr> else s)"

definition finish :: "nat \<Rightarrow> nat \<Rightarrow> key \<Rightarrow> nat \<Rightarrow> bool \<Rightarrow> val \<Rightarrow> state \<Rightarrow> state option" where
  "finish n a k d shallow newVal s =
     (case (if shallow then Some (s, None) else observe_fuel n s newVal False) of
        None \<Rightarrow> None
      | Some r \<Rightarrow> Some (notify d (store_closure a k d (with_childOb (snd r)) (fst r))))"

text \<open>
  The setter of an accessor installed at key \<open>k\<close> of the object \<open>a\<close>, called with
  \<open>newVal\<close>. For a closure of \<^verbatim>\<open>defineReactive\<close> it is \<^verbatim>\<open>reactiveSetter\<close> (lines 227 to
  249); \<^verbatim>\<open>getter.call(obj)\<close> and \<^verbatim>\<open>setter.call(obj, newVal)\<close> run the accessor found at
  the key, with all it does. The \<^verbatim>\<open>console.log\<close> of line 228 writes to the console only.
\<close>

fun reactiveSetter_fuel ::
  "nat \<Rightarrow> nat \<Rightarrow> key \<Rightarrow> accessor \<Rightarrow> val \<Rightarrow> state \<Rightarrow> state option" where
  "reactiveSetter_fuel n a k (Pair g st c) newVal s = Some (store_cell a k newVal s)"
| "reactiveSetter_fuel n a k (Closure d v childOb customSetter shallow found) newVal s =
     (case current n found v s of
        None \<Rightarrow> None
      | Some r \<Rightarrow>
          if unchanged newVal (snd r) then Some (fst r)
          else if has_getter found \<and> \<not> has_setter found then Some (hooked customSetter (fst r))
          else
            (case (case found of
                     None \<Rightarrow>
                       Some (store_closure a k d (with_val newVal) (hooked customSetter (fst r)))
                   | Some acc \<Rightarrow>
                       if acc_set acc
                       then reactiveSetter_fuel n a k acc newVal (hooked customSetter (fst r))
                       else Some (store_closure a k d (with_val newVal)
                                    (hooked customSetter (fst r)))) of
               None \<Rightarrow> None
             | Some s2 \<Rightarrow> finish n a k d shallow newVal s2))"

subsection \<open>Assignment, deletion and the array operations of the language\<close>

datatype error = TypeError | RangeError

text \<open>
  Modelled from the spec: \<^verbatim>\<open>hasOwn\<close> of \<^verbatim>\<open>util/index\<close>, which is not among the sources
  ("if the key is not an own property"). The marker is the own property \<^verbatim>\<open>__ob__\<close>; an
  array has its \<^verbatim>\<open>length\<close> and its elements. \<open>key_in\<close> is \<^verbatim>\<open>key in target\<close>, along the
  prototype chain, and the keys of \<^verbatim>\<open>Object.prototype\<close> are those of the language.
\<close>

definition hasOwn :: "obj \<Rightarrow> key \<Rightarrow> bool" where
  "hasOwn ob k \<longleftrightarrow>
     getOwnProperty ob k \<noteq> None \<or> (k = Name ''__ob__'' \<and> marker ob \<noteq> None) \<or>
     own_special ob k \<noteq> None"

definition key_in :: "state \<Rightarrow> nat \<Rightarrow> key \<Rightarrow> bool" where
  "key_in s a k \<longleftrightarrow>
     (\<exists>b \<in> set (protoChain s a). hasOwn (heap s ! b) k) \<or>
     (case protoChain s a of [] \<Rightarrow> False | b # bs \<Rightarrow> k \<in> set (inherited (heap s ! last (b # bs))))"

definition objectPrototypeKeys :: "key list" where
  "objectPrototypeKeys =
     map Name [''constructor'', ''hasOwnProperty'', ''isPrototypeOf'', ''propertyIsEnumerable'',
       ''toLocaleString'', ''toString'', ''valueOf'', ''__proto__'', ''__defineGetter__'',
       ''__defineSetter__'', ''__lookupGetter__'', ''__lookupSetter__'']"

text \<open>
  The length of an array is below \<open>2 ^ 32\<close>: \<^verbatim>\<open>arr.length = n\<close> and
  \<^verbatim>\<open>Array.prototype.splice\<close> raise a RangeError beyond. An array that is not extensible
  takes no new element: \<^verbatim>\<open>splice\<close> raises a TypeError where it would put a value at an
  index that has none.
\<close>

definition maxLength :: nat where
  "maxLength = 4294967295"

definition setLength :: "nat \<Rightarrow> obj \<Rightarrow> error + obj" where
  "setLength n ob =
     (if maxLength < n then Inl RangeError
      else Inr (ob\<lparr>elems := take n (elems ob) @ replicate (n - length (elems ob)) None\<rparr>))"

definition creates :: "val option list \<Rightarrow> val option list \<Rightarrow> bool" where
  "creates old new \<longleftrightarrow>
     (\<exists>j \<in> set [0..<length new]. new ! j \<noteq> None \<and> (length old \<le> j \<or> old ! j = None))"

definition splice :: "nat \<Rightarrow> nat \<Rightarrow> val list \<Rightarrow> obj \<Rightarrow> error + obj" where
  "splice start deleteCount items ob =
     (let len = length (elems ob);
          st = min start len;
          xs = take st (elems ob) @ map Some items @
               drop (st + min deleteCount (len - st)) (elems ob)
      in if \<not> extensible ob \<and> creates (elems ob) xs then Inl TypeError
         else if maxLength < length xs then Inl RangeError
         else Inr (ob\<lparr>elems := xs\<rparr>))"

text \<open>
  Modelled from the spec: the wrapped \<^verbatim>\<open>splice\<close> of \<^verbatim>\<open>array.js\<close>, which is not among the
  sources ("(a) perform the original mutation, (b) observe any newly inserted elements,
  (c) notify the array's own Dep"). An array without an Observer has the \<^verbatim>\<open>splice\<close> of
  the language.
\<close>

definition splice_mutator_fuel ::
  "nat \<Rightarrow> state \<Rightarrow> nat \<Rightarrow> nat \<Rightarrow> nat \<Rightarrow> val list \<Rightarrow> (error + state) option" where
  "splice_mutator_fuel n s a start deleteCount items =
     (case lookup s a of
        None \<Rightarrow> Some (Inl TypeError)
      | Some ob \<Rightarrow>
          (case splice start deleteCount items ob of
             Inl e \<Rightarrow> Some (Inl e)
           | Inr ob' \<Rightarrow>
               (case marker ob of
                  None \<Rightarrow> Some (Inr (update_obj a (\<lambda>_. ob') s))
                | Some i \<Rightarrow>
                    (case observeArray_fuel n (update_obj a (\<lambda>_. ob') s) items of
                       None \<Rightarrow> None
                     | Some s2 \<Rightarrow> Some (Inr (notify (ob_dep (observers s2 i)) s2))))))"

text \<open>
  Modelled from the spec: \<^verbatim>\<open>isValidArrayIndex\<close> of \<^verbatim>\<open>util/index\<close>, which is not among the
  sources ("key is a valid index").
\<close>

fun isValidArrayIndex :: "key \<Rightarrow> bool" where
  "isValidArrayIndex (Idx n) = True"
| "isValidArrayIndex (Name x) = False"

fun index_of :: "key \<Rightarrow> nat" where
  "index_of (Idx n) = n"
| "index_of (Name x) = 0"

text \<open>
  The number that \<^verbatim>\<open>arr.length = v\<close> sets, \<open>None\<close> where the language raises a
  RangeError. A string is read as a decimal numeral; the other numerals of the language,
  and the conversion of an object, are not modelled and taken for no length.
\<close>

definition numeral_of :: "string \<Rightarrow> nat option" where
  "numeral_of x =
     (if \<forall>c \<in> set x. c \<in> set ''0123456789''
      then Some (foldl (\<lambda>n c. 10 * n + (of_char c - 48)) 0 x) else None)"

definition toLength :: "val \<Rightarrow> nat option" where
  "toLength v =
     (case (case v of
              Num i \<Rightarrow> (if 0 \<le> i then Some (nat i) else None)
            | Null \<Rightarrow> Some 0
            | Bool b \<Rightarrow> Some (if b then 1 else 0)
            | Str x \<Rightarrow> numeral_of x
            | _ \<Rightarrow> None) of
        None \<Rightarrow> None
      | Some l \<Rightarrow> if maxLength < l then None else Some l)"

text \<open>
  The assignment \<^verbatim>\<open>target[key] = val\<close> in strict mode (the source is a module), along the
  prototype chain: through the setter where the key is found as an accessor, a new own
  property where it is found on a prototype as a data property or not at all, and a
  TypeError where the accessor has no setter or the object cannot take a new property.
  Assigning to \<^verbatim>\<open>__ob__\<close> replaces the Observer held there, and assigning to the
  \<^verbatim>\<open>__proto__\<close> of \<^verbatim>\<open>Object.prototype\<close> sets the prototype. \<^verbatim>\<open>set\<close> serves the indices
  of an array before any assignment, so the assignment of an element is not modelled.
\<close>

definition create_own :: "nat \<Rightarrow> key \<Rightarrow> val \<Rightarrow> state \<Rightarrow> error + state" where
  "create_own a k v s =
     (if extensible (heap s ! a) then Inr (update_obj a (defineProperty k (Data v True True)) s)
      else Inl TypeError)"

definition setPrototype :: "nat \<Rightarrow> val \<Rightarrow> state \<Rightarrow> error + state" where
  "setPrototype a v s =
     (case v of
        Ref b \<Rightarrow>
          (if length (heap s) \<le> b \<or> proto (heap s ! a) = Some b then Inr s
           else if \<not> extensible (heap s ! a) \<or> a \<in> set (protoChain s b) then Inl TypeError
           else Inr (update_obj a (\<lambda>ob. ob\<lparr>proto := Some b\<rparr>) s))
      | Null \<Rightarrow>
          (if proto (heap s ! a) = None \<and> inherited (heap s ! a) = [] then Inr s
           else if \<not> extensible (heap s ! a) then Inl TypeError
           else Inr (update_obj a (\<lambda>ob. ob\<lparr>proto := None, inherited := []\<rparr>) s))
      | _ \<Rightarrow> Inr s)"

definition assign_fuel :: "nat \<Rightarrow> state \<Rightarrow> nat \<Rightarrow> key \<Rightarrow> val \<Rightarrow> (error + state) option" where
  "assign_fuel n s a k v =
     (case lookup s a of
        None \<Rightarrow> Some (Inl TypeError)
      | Some ob \<Rightarrow>
          if kind ob = Array \<and> k = Name ''length''
          then
            (case toLength v of
               None \<Rightarrow> Some (Inl RangeError)
             | Some l \<Rightarrow>
                 (case setLength l ob of
                    Inl e \<Rightarrow> Some (Inl e)
                  | Inr ob1 \<Rightarrow> Some (Inr (update_obj a (\<lambda>_. ob1) s))))
          else
            (case find_prop s a k of
               Some bp \<Rightarrow>
                 (case snd bp of
                    Data u e c \<Rightarrow>
                      Some (if fst bp = a then Inr (update_obj a (defineProperty k (Data v e c)) s)
                            else create_own a k v s)
                  | Acc acc e c \<Rightarrow>
                      if acc_set acc
                      then map_option Inr (reactiveSetter_fuel n (fst bp) k acc v s)
                      else Some (Inl TypeError))
             | None \<Rightarrow>
                 Some (if k = Name ''__ob__'' \<and> marker ob \<noteq> None
                       then Inr (update_obj a
                                   (\<lambda>x. (defineProperty k (Data v False True) x)\<lparr>marker := None\<rparr>) s)
                       else if k = Name ''__proto__'' \<and> key_in s a k then setPrototype a v s
                       else create_own a k v s)))"

text \<open>
  \<^verbatim>\<open>delete target[key]\<close> in strict mode: a TypeError where the property is not
  configurable, as the \<^verbatim>\<open>length\<close> of an array is not. Deleting \<^verbatim>\<open>__ob__\<close> removes the
  marker. \<^verbatim>\<open>del\<close> serves the indices of an array before any deletion, so the deletion of
  an element is not modelled.
\<close>

definition unmark :: "key \<Rightarrow> obj \<Rightarrow> obj" where
  "unmark k ob = (if k = Name ''__ob__'' then ob\<lparr>marker := None\<rparr> else ob)"

definition deleteProperty :: "key \<Rightarrow> obj \<Rightarrow> error + obj" where
  "deleteProperty k ob =
     (if kind ob = Array \<and> k = Name ''length'' then Inl TypeError
      else
        (case getOwnProperty ob k of
           Some p \<Rightarrow>
             (if configurable p then Inr (unmark k (ob\<lparr>props := AList.delete k (props ob)\<rparr>))
              else Inl TypeError)
         | None \<Rightarrow> Inr (unmark k ob)))"

subsection \<open>set and del\<close>

text \<open>\<^verbatim>\<open>target._isVue || (ob && ob.vmCount)\<close>, with \<^verbatim>\<open>ob = target.__ob__\<close>.\<close>

definition isRoot :: "state \<Rightarrow> nat \<Rightarrow> bool" where
  "isRoot s a \<longleftrightarrow>
     isVue_in s a \<or>
     (case find_marker s a of Some i \<Rightarrow> vmCount (observers s i) \<noteq> 0 | None \<Rightarrow> False)"

definition with_value :: "val \<Rightarrow> (error + state) option \<Rightarrow> (error + state \<times> val) option" where
  "with_value v r =
     (case r of
        None \<Rightarrow> None
      | Some (Inl e) \<Rightarrow> Some (Inl e)
      | Some (Inr s) \<Rightarrow> Some (Inr (s, v)))"

text \<open>
  \<^verbatim>\<open>set\<close> (lines 258 to 288). The warnings write to the console only. A target that is
  \<^verbatim>\<open>undefined\<close>, \<^verbatim>\<open>null\<close> or primitive makes \<^verbatim>\<open>key in target\<close> raise a TypeError. The
  TypeError that \<^verbatim>\<open>Object.defineProperty\<close> raises inside \<^verbatim>\<open>defineReactive\<close> for a new
  key of an object that is not extensible is written here, before the call.
\<close>

definition set_fuel :: "nat \<Rightarrow> state \<Rightarrow> val \<Rightarrow> key \<Rightarrow> val \<Rightarrow> (error + state \<times> val) option" where
  "set_fuel n s tgt k v =
     (case isObject s tgt of
        None \<Rightarrow> Some (Inl TypeError)
      | Some p \<Rightarrow>
          (let a = fst p; ob = snd p
           in if kind ob = Array \<and> isValidArrayIndex k
              then
                (case setLength (max (length (elems ob)) (index_of k)) ob of
                   Inl e \<Rightarrow> Some (Inl e)
                 | Inr ob1 \<Rightarrow>
                     with_value v
                       (splice_mutator_fuel n (update_obj a (\<lambda>_. ob1) s) a (index_of k) 1 [v]))
              else if key_in s a k \<and> k \<notin> set objectPrototypeKeys
              then with_value v (assign_fuel n s a k v)
              else if isRoot s a then Some (Inr (s, v))
              else
                (case find_marker s a of
                   None \<Rightarrow> with_value v (assign_fuel n s a k v)
                 | Some i \<Rightarrow>
                     (case lookup s (ob_value (observers s i)) of
                        None \<Rightarrow> Some (Inl TypeError)
                      | Some ob' \<Rightarrow>
                          if getOwnProperty ob' k = None \<and> \<not> extensible ob'
                          then Some (Inl TypeError)
                          else
                            (case defineReactive_fuel n s (ob_value (observers s i)) k (Some v)
                                    False False of
                               None \<Rightarrow> None
                             | Some s1 \<Rightarrow> Some (Inr (notify (ob_dep (observers s1 i)) s1, v)))))))"

text \<open>
  \<^verbatim>\<open>del\<close> (lines 293 to 319). A target that is \<^verbatim>\<open>undefined\<close> or \<^verbatim>\<open>null\<close> makes
  \<^verbatim>\<open>target.__ob__\<close> raise a TypeError; any other primitive has no Observer, and of its
  own properties (the indices and the length of a string) none can be deleted.
\<close>

definition del_fuel :: "nat \<Rightarrow> state \<Rightarrow> val \<Rightarrow> key \<Rightarrow> (error + state) option" where
  "del_fuel n s tgt k =
     (case tgt of
        Undefined \<Rightarrow> Some (Inl TypeError)
      | Null \<Rightarrow> Some (Inl TypeError)
      | Str x \<Rightarrow>
          (if k = Name ''length'' \<or> (isValidArrayIndex k \<and> index_of k < length x)
           then Some (Inl TypeError) else Some (Inr s))
      | Ref a \<Rightarrow>
          (case lookup s a of
             None \<Rightarrow> Some (Inl TypeError)
           | Some ob \<Rightarrow>
               if kind ob = Array \<and> isValidArrayIndex k
               then splice_mutator_fuel n s a (index_of k) 1 []
               else if isRoot s a then Some (Inr s)
               else if \<not> hasOwn ob k then Some (Inr s)
               else
                 (case deleteProperty k ob of
                    Inl e \<Rightarrow> Some (Inl e)
                  | Inr ob' \<Rightarrow>
                      (case find_marker s a of
                         None \<Rightarrow> Some (Inr (update_obj a (\<lambda>_. ob') s))
                       | Some i \<Rightarrow>
                           Some (Inr (notify (ob_dep (observers s i))
                                        (update_obj a (\<lambda>_. ob') s))))))
      | _ \<Rightarrow> Some (Inr s))"

subsection \<open>What observation leaves alone, and when it returns\<close>

text \<open>
  The calls other than \<^verbatim>\<open>addDep\<close>: the notifications (\<^verbatim>\<open>update\<close>) and the calls of the
  \<^verbatim>\<open>customSetter\<close> hook, in order.
\<close>

definition is_signal :: "call \<Rightarrow> bool" where
  "is_signal c = (case c of AddDep w d \<Rightarrow> False | _ \<Rightarrow> True)"

definition signals :: "state \<Rightarrow> call list" where
  "signals s = filter is_signal (calls s)"

text \<open>
  \<open>frame s s'\<close>: from \<open>s\<close> to \<open>s'\<close> the heap keeps its objects, every object keeps its
  kind, flags, elements, prototype and inherited keys and a marker it has; the Deps and
  Observers that exist keep their subscribers, value and Dep; the targets and the
  switches are the same, and the record of calls has grown by calls of \<^verbatim>\<open>addDep\<close> only
  (those of the getters that \<^verbatim>\<open>defineReactive\<close> runs at line 197). Only own properties,
  new markers, new Deps and Observers, and the root counts may differ otherwise.
\<close>

definition same_shape :: "obj \<Rightarrow> obj \<Rightarrow> bool" where
  "same_shape ob ob' \<longleftrightarrow>
     kind ob' = kind ob \<and> isVue ob' = isVue ob \<and> extensible ob' = extensible ob \<and>
     elems ob' = elems ob \<and> proto ob' = proto ob \<and> inherited ob' = inherited ob \<and>
     (marker ob = None \<or> marker ob' = marker ob)"

definition frame :: "state \<Rightarrow> state \<Rightarrow> bool" where
  "frame s s' \<longleftrightarrow>
     length (heap s') = length (heap s) \<and>
     (\<forall>b < length (heap s). same_shape (heap s ! b) (heap s' ! b)) \<and>
     uid s \<le> uid s' \<and> (\<forall>d < uid s. subs s' d = subs s d) \<and>
     nextOb s \<le> nextOb s' \<and>
     (\<forall>i < nextOb s. ob_value (observers s' i) = ob_value (observers s i) \<and>
                     ob_dep (observers s' i) = ob_dep (observers s i)) \<and>
     target s' = target s \<and> targetStack s' = targetStack s \<and>
     shouldObserve s' = shouldObserve s \<and> production s' = production s \<and>
     configAsync s' = configAsync s \<and> serverRendering s' = serverRendering s \<and>
     (\<exists>cs. calls s' = calls s @ cs \<and> filter is_signal cs = [])"

text \<open>
  \<open>made s\<close>: every marker of the heap is an Observer that the constructor made for that
  object, with a Dep that the constructor of Dep made. It holds of the initial state and
  every function of this module keeps it.
\<close>

definition made :: "state \<Rightarrow> bool" where
  "made s \<longleftrightarrow>
     (\<forall>b \<in> set [0..<length (heap s)].
        case marker (heap s ! b) of
          None \<Rightarrow> True
        | Some i \<Rightarrow> i < nextOb s \<and> ob_value (observers s i) = b \<and>
                    ob_dep (observers s i) < uid s)"

text \<open>
  \<open>descends s rk\<close>: along the elements of the arrays of the heap the rank \<open>rk\<close> of
  nested arrays decreases, so that no array contains itself, directly or not.
  \<open>below s rk xs n\<close>: the arrays among the values \<open>xs\<close> have a rank below \<open>n\<close>.
  \<open>calm s rk r\<close>: no subscriber is active, or the nesting of arrays descends from ranks
  below \<open>r\<close>; then every getter returns within the bound \<open>r\<close>.
\<close>

definition array_at :: "state \<Rightarrow> val \<Rightarrow> nat option" where
  "array_at s v =
     (case isObject s v of
        Some p \<Rightarrow> (if kind (snd p) = Array then Some (fst p) else None)
      | None \<Rightarrow> None)"

definition below :: "state \<Rightarrow> (nat \<Rightarrow> nat) \<Rightarrow> val list \<Rightarrow> nat \<Rightarrow> bool" where
  "below s rk xs n \<longleftrightarrow>
     (\<forall>e \<in> set xs. case array_at s e of Some a \<Rightarrow> rk a < n | None \<Rightarrow> True)"

definition descends :: "state \<Rightarrow> (nat \<Rightarrow> nat) \<Rightarrow> bool" where
  "descends s rk \<longleftrightarrow>
     (\<forall>b \<in> set [0..<length (heap s)].
        kind (heap s ! b) = Array \<longrightarrow> below s rk (map item (elems (heap s ! b))) (rk b))"

definition calm :: "state \<Rightarrow> (nat \<Rightarrow> nat) \<Rightarrow> nat \<Rightarrow> bool" where
  "calm s rk r \<longleftrightarrow>
     target s = None \<or>
     (descends s rk \<and> (\<forall>b \<in> set [0..<length (heap s)]. kind (heap s ! b) = Array \<longrightarrow> rk b < r))"

text \<open>
  \<open>registered s s'\<close>: from \<open>s\<close> to \<open>s'\<close> nothing has happened but calls of \<^verbatim>\<open>addDep\<close> on
  the target; nothing at all when there is no target.
\<close>

definition registered :: "state \<Rightarrow> state \<Rightarrow> bool" where
  "registered s s' \<longleftrightarrow>
     (case target s of
        None \<Rightarrow> s' = s
      | Some w \<Rightarrow> (\<exists>ds. s' = s\<lparr>calls := calls s @ map (AddDep w) ds\<rparr>))"

section \<open>Example states\<close>

text \<open>
  The object \<^verbatim>\<open>{x: NaN, y: 1}\<close>, observed (\<open>example_state\<close>) and observed as root data
  (\<open>example_root\<close>).
\<close>

definition example_object :: obj where
  "example_object =
     \<lparr>kind = PlainObject, isVue = False, extensible = True,
      props = [(Name ''x'', Data NaN True True), (Name ''y'', Data (Num 1) True True)],
      elems = [], proto = None, inherited = objectPrototypeKeys, marker = None\<rparr>"

definition example_state :: state where
  "example_state =
     fst (the (observe_fuel 2 (initial [example_object] False False False) (Ref 0) False))"

definition example_root :: state where
  "example_root =
     fst (the (observe_fuel 2 (initial [example_object] False False False) (Ref 0) True))"

section \<open>Dep and the stack of targets: properties\<close>

lemma subs_addSub: "subs (addSub d w s) d = subs s d @ [w]"
  by (simp add: addSub_def)

lemma subs_fold_addSub: "subs (fold (addSub d) ws s) d = subs s d @ ws"
  by (induction ws arbitrary: s) (simp_all add: subs_addSub)

lemma target_is_top_initial: "target_is_top (initial h prd asy ssr)"
  by (simp add: target_is_top_def initial_def)

lemma target_is_top_pushTarget: "target_is_top (pushTarget t s)"
  by (simp add: target_is_top_def pushTarget_def)

lemma target_is_top_popTarget: "target_is_top (popTarget s)"
  by (simp add: target_is_top_def popTarget_def Let_def)

lemma popTarget_pushTarget:
  "popTarget (pushTarget w s) =
     s\<lparr>target := (if targetStack s = [] then None else last (targetStack s))\<rparr>"
  unfolding popTarget_def pushTarget_def by (simp add: Let_def)

lemma target_pushTarget: "target (pushTarget w s) = w"
  by (simp add: pushTarget_def)

lemma targetStack_pushTarget: "targetStack (pushTarget w s) = targetStack s @ [w]"
  by (simp add: pushTarget_def)

text \<open>
  C10. \<^verbatim>\<open>popTarget()\<close> on an empty stack does not fail (the model has no failing branch,
  as the code has none): the stack stays empty and \<^verbatim>\<open>Dep.target\<close> becomes no subscriber;
  nothing else changes.
\<close>

theorem popTarget_empty:
  "targetStack s = [] \<Longrightarrow>
     popTarget s = s\<lparr>target := None\<rparr> \<and> targetStack (popTarget s) = [] \<and>
     target (popTarget s) = None"
  by (simp add: popTarget_def)

theorem popTarget_empty_witness:
  "targetStack (initial [] False False False) = [] \<and>
   targetStack (popTarget (initial [] False False False)) = [] \<and>
   target (popTarget (initial [] False False False)) = None \<and>
   targetStack (popTarget (pushTarget (Some (Watcher 1)) (popTarget (initial [] False False False)))) = []"
  using popTarget_empty [of "initial [] False False False"]
  by (simp add: initial_def popTarget_def pushTarget_def)

text \<open>
  C5. In a state where \<^verbatim>\<open>Dep.target\<close> is the top of the stack (every state reached by
  pushes and pops), \<^verbatim>\<open>pushTarget(w)\<close> followed by \<^verbatim>\<open>popTarget()\<close> gives the state back, so
  the pointer is again its prior value \<open>t\<close>; and in any state at all, once \<open>A\<close> has been
  pushed, pushing \<open>B\<close> and popping it makes \<open>A\<close> the active subscriber again.
\<close>

theorem pushTarget_popTarget_restores:
  "target_is_top s \<Longrightarrow> target s = t \<Longrightarrow>
     popTarget (pushTarget w s) = s \<and> target (popTarget (pushTarget w s)) = t \<and>
     target (popTarget (pushTarget b (pushTarget a s'))) = a"
  by (simp add: target_is_top_def popTarget_pushTarget targetStack_pushTarget)

theorem pushTarget_popTarget_restores_witness:
  "target_is_top (pushTarget (Some (Watcher 1)) (initial [] False False False)) \<and>
   target (pushTarget (Some (Watcher 1)) (initial [] False False False)) = Some (Watcher 1) \<and>
   target (popTarget (pushTarget (Some (Watcher 2))
     (pushTarget (Some (Watcher 1)) (initial [] False False False)))) = Some (Watcher 1)"
  using pushTarget_popTarget_restores
    [where s = "pushTarget (Some (Watcher 1)) (initial [] False False False)"
       and t = "Some (Watcher 1)" and w = "Some (Watcher 2)"
       and a = "Some (Watcher 1)" and b = "Some (Watcher 2)"
       and s' = "initial [] False False False"]
  by (simp add: target_is_top_pushTarget target_pushTarget)

lemma notify_order_deferred: "production s \<or> configAsync s \<Longrightarrow> notify_order s ws = ws"
  by (auto simp: notify_order_def)

text \<open>
  C4. When the build is not a production build and \<^verbatim>\<open>config.async\<close> is off (the mode in
  which updates are not deferred), \<^verbatim>\<open>notify()\<close> calls \<^verbatim>\<open>update()\<close> on exactly the
  subscribers of the Dep, each as often as it was added, in ascending order of id,
  whatever the order \<open>ws\<close> in which \<^verbatim>\<open>addSub\<close> added them; nothing but the record of calls
  changes.
\<close>

theorem notify_ascending:
  "\<not> production s \<Longrightarrow> \<not> configAsync s \<Longrightarrow> subs s d = [] \<Longrightarrow>
     (\<exists>us. calls (notify d (fold (addSub d) ws s)) = calls s @ map Update us \<and>
            sorted (map wid us) \<and> mset us = mset ws \<and>
            notify d (fold (addSub d) ws s) =
              (fold (addSub d) ws s)\<lparr>calls := calls s @ map Update us\<rparr>)"
proof -
  assume mode: "\<not> production s" "\<not> configAsync s" and empty: "subs s d = []"
  let ?s = "fold (addSub d) ws s"
  have frame: "production ?s = production s \<and> configAsync ?s = configAsync s \<and> calls ?s = calls s"
    by (induction ws arbitrary: s) (simp_all add: addSub_def)
  have "subs ?s d = ws"
    using empty by (simp add: subs_fold_addSub)
  with mode frame have "notify d ?s = ?s\<lparr>calls := calls s @ map Update (sort_key wid ws)\<rparr>"
    by (simp add: notify_def notify_order_def)
  then show ?thesis
    by (intro exI [of _ "sort_key wid ws"]) simp
qed

theorem notify_ascending_witness:
  "calls (notify 0 (fold (addSub 0) [Watcher 3, Watcher 1, Watcher 2]
            (initial [] False False False))) =
     [Update (Watcher 1), Update (Watcher 2), Update (Watcher 3)]"
  using notify_ascending [of "initial [] False False False" 0 "[Watcher 3, Watcher 1, Watcher 2]"]
  by (simp add: initial_def notify_def notify_order_def addSub_def)

section \<open>The getters: what they record, and when they return\<close>

lemma lookup_Some: "lookup s a = Some ob \<longleftrightarrow> a < length (heap s) \<and> ob = heap s ! a"
  by (auto simp: lookup_def)

lemma isObject_Some:
  "isObject s v = Some p \<longleftrightarrow> v = Ref (fst p) \<and> lookup s (fst p) = Some (snd p)"
  by (cases p) (auto simp: isObject_def split: val.splits option.splits)

lemma lookup_heap: "heap s' = heap s \<Longrightarrow> lookup s' a = lookup s a"
  by (simp add: lookup_def)

lemma isObject_heap:
  assumes "heap s' = heap s"
  shows "isObject s' v = isObject s v"
  using lookup_heap [OF assms] by (cases v) (simp_all add: isObject_def)

lemma array_items_heap:
  assumes "heap s' = heap s"
  shows "array_items s' v = array_items s v"
  by (simp add: array_items_def isObject_heap [OF assms])

lemma array_at_heap:
  assumes "heap s' = heap s"
  shows "array_at s' v = array_at s v"
  by (simp add: array_at_def isObject_heap [OF assms])

lemma protoChain_heap: "heap s' = heap s \<Longrightarrow> protoChain s' a = protoChain s a"
  by (simp add: protoChain_def)

lemma find_marker_heap:
  assumes "heap s' = heap s"
  shows "find_marker s' a = find_marker s a"
  by (simp add: find_marker_def protoChain_heap [OF assms] assms)

lemma find_prop_heap:
  assumes "heap s' = heap s"
  shows "find_prop s' a k = find_prop s a k"
  by (simp add: find_prop_def protoChain_heap [OF assms] assms)

lemma isVue_in_heap:
  assumes "heap s' = heap s"
  shows "isVue_in s' a = isVue_in s a"
  by (simp add: isVue_in_def protoChain_heap [OF assms] assms)

lemma key_in_heap:
  assumes "heap s' = heap s"
  shows "key_in s' a k = key_in s a k"
  by (simp add: key_in_def protoChain_heap [OF assms] assms split: list.splits)

lemma below_heap:
  assumes "heap s' = heap s"
  shows "below s' rk xs n = below s rk xs n"
  by (simp add: below_def array_at_heap [OF assms])

lemma descends_heap:
  assumes "heap s' = heap s"
  shows "descends s' rk = descends s rk"
  by (simp add: descends_def below_heap [OF assms] assms)

lemma calm_heap:
  assumes "heap s' = heap s" and "target s' = target s"
  shows "calm s' rk r = calm s rk r"
  by (simp add: calm_def descends_heap [OF assms(1)] assms)

lemma registered_refl: "registered s s"
  by (cases "target s") (auto simp: registered_def intro: exI [of _ "[]"])

lemma registered_trans: "registered s s' \<Longrightarrow> registered s' s'' \<Longrightarrow> registered s s''"
proof (cases "target s")
  case None
  assume "registered s s'" "registered s' s''"
  with None show ?thesis by (simp add: registered_def)
next
  case (Some w)
  assume "registered s s'" "registered s' s''"
  with Some obtain ds es where
    "s' = s\<lparr>calls := calls s @ map (AddDep w) ds\<rparr>"
    "s'' = s'\<lparr>calls := calls s' @ map (AddDep w) es\<rparr>"
    by (auto simp: registered_def)
  then have "s'' = s\<lparr>calls := calls s @ map (AddDep w) (ds @ es)\<rparr>" by simp
  with Some show ?thesis unfolding registered_def by (simp only: option.case) blast
qed

lemma registered_depend: "registered s (depend d s)"
  by (cases "target s") (auto simp: registered_def depend_def intro: exI [of _ "[d]"])

lemma registered_fields:
  "registered s s' \<Longrightarrow>
     heap s' = heap s \<and> observers s' = observers s \<and> nextOb s' = nextOb s \<and>
     subs s' = subs s \<and> uid s' = uid s \<and> target s' = target s \<and>
     targetStack s' = targetStack s \<and> shouldObserve s' = shouldObserve s \<and>
     production s' = production s \<and> configAsync s' = configAsync s \<and>
     serverRendering s' = serverRendering s"
  by (cases "target s") (auto simp: registered_def)

lemma registered_calls:
  "registered s s' \<Longrightarrow> \<exists>cs. s' = s\<lparr>calls := calls s @ cs\<rparr> \<and> filter is_signal cs = []"
  by (cases "target s") (auto simp: registered_def is_signal_def intro: exI [of _ "[]"])

lemma registered_signals: "registered s s' \<Longrightarrow> signals s' = signals s"
  using registered_calls [of s s'] by (auto simp: signals_def)

lemma registered_unset: "target s = None \<Longrightarrow> registered s s' \<Longrightarrow> s' = s"
  by (simp add: registered_def)

lemma registered_depend_elem: "registered s (depend_elem e s)"
  by (auto simp: depend_elem_def registered_refl registered_depend split: option.splits)

lemma dependArray_registered:
  "dependArray_fuel n xs s = Some s' \<Longrightarrow> registered s s'"
proof (induction n xs s arbitrary: s' rule: dependArray_fuel.induct)
  case (1 n s)
  then show ?case by (simp add: registered_refl)
next
  case (2 n e es s)
  from "2.prems" obtain s1 where
    s1: "(case array_items s e of
            None \<Rightarrow> Some (depend_elem e s)
          | Some xs \<Rightarrow> (case n of 0 \<Rightarrow> None | Suc m \<Rightarrow> dependArray_fuel m xs (depend_elem e s)))
         = Some s1"
    and s': "dependArray_fuel n es s1 = Some s'"
    by (auto split: option.splits)
  have "registered s s1"
  proof (cases "array_items s e")
    case None
    with s1 show ?thesis by (auto simp: registered_depend_elem)
  next
    case (Some ys)
    with s1 obtain m where m: "n = Suc m" "dependArray_fuel m ys (depend_elem e s) = Some s1"
      by (cases n) auto
    from "2.IH"(1) [OF Some m] registered_depend_elem show ?thesis
      by (rule registered_trans [rotated])
  qed
  from this "2.IH"(2) [OF s1 s'] show ?case by (rule registered_trans)
qed

lemma array_at_Some:
  "array_at s e = Some a \<longleftrightarrow> (\<exists>ob. e = Ref a \<and> lookup s a = Some ob \<and> kind ob = Array)"
  by (cases e) (auto simp: array_at_def isObject_def split: option.splits)

lemma below_iff:
  "below s rk xs n \<longleftrightarrow>
     (\<forall>a ob. Ref a \<in> set xs \<and> lookup s a = Some ob \<and> kind ob = Array \<longrightarrow> rk a < n)"
proof
  assume b: "below s rk xs n"
  show "\<forall>a ob. Ref a \<in> set xs \<and> lookup s a = Some ob \<and> kind ob = Array \<longrightarrow> rk a < n"
  proof (intro allI impI)
    fix a ob
    assume h: "Ref a \<in> set xs \<and> lookup s a = Some ob \<and> kind ob = Array"
    then have "array_at s (Ref a) = Some a" by (auto simp: array_at_Some)
    with b h show "rk a < n" unfolding below_def by force
  qed
next
  assume r: "\<forall>a ob. Ref a \<in> set xs \<and> lookup s a = Some ob \<and> kind ob = Array \<longrightarrow> rk a < n"
  show "below s rk xs n"
    unfolding below_def
  proof
    fix e
    assume e: "e \<in> set xs"
    show "case array_at s e of Some a \<Rightarrow> rk a < n | None \<Rightarrow> True"
    proof (cases "array_at s e")
      case None
      then show ?thesis by simp
    next
      case (Some a)
      then obtain ob where "e = Ref a" "lookup s a = Some ob" "kind ob = Array"
        by (auto simp: array_at_Some)
      with e r have "rk a < n" by blast
      with Some show ?thesis by simp
    qed
  qed
qed

lemma descends_iff:
  "descends s rk \<longleftrightarrow>
     (\<forall>b ob a ob'. lookup s b = Some ob \<and> kind ob = Array \<and> Ref a \<in> set (map item (elems ob)) \<and>
        lookup s a = Some ob' \<and> kind ob' = Array \<longrightarrow> rk a < rk b)"
  unfolding descends_def below_iff by (auto simp: lookup_Some)

lemma array_items_Some:
  "array_items s e = Some xs \<longleftrightarrow>
     (\<exists>a ob. e = Ref a \<and> lookup s a = Some ob \<and> kind ob = Array \<and> xs = map item (elems ob))"
  by (cases e) (auto simp: array_items_def isObject_def split: option.splits)

text \<open>\<^verbatim>\<open>dependArray\<close> returns when the nesting of arrays descends.\<close>

lemma dependArray_returns:
  "descends s rk \<Longrightarrow> below s rk xs n \<Longrightarrow> \<exists>s'. dependArray_fuel n xs s = Some s'"
proof (induction n xs s rule: dependArray_fuel.induct)
  case (1 n s)
  then show ?case by simp
next
  case (2 n e es s)
  note h1 = registered_fields [OF registered_depend_elem, of e s, THEN conjunct1]
  have "\<exists>s1. (case array_items s e of
            None \<Rightarrow> Some (depend_elem e s)
          | Some xs \<Rightarrow> (case n of 0 \<Rightarrow> None | Suc m \<Rightarrow> dependArray_fuel m xs (depend_elem e s)))
         = Some s1"
  proof (cases "array_items s e")
    case None
    then show ?thesis by simp
  next
    case (Some ys)
    then obtain a ob where
      a: "e = Ref a" "lookup s a = Some ob" "kind ob = Array" "ys = map item (elems ob)"
      by (auto simp: array_items_Some)
    with "2.prems"(2) have "rk a < n" by (auto simp: below_iff)
    then obtain m where m: "n = Suc m" "rk a \<le> m" by (cases n) auto
    have "below s rk ys m"
      unfolding below_iff
    proof (intro allI impI)
      fix a' ob'
      assume "Ref a' \<in> set ys \<and> lookup s a' = Some ob' \<and> kind ob' = Array"
      with a "2.prems"(1) have "rk a' < rk a" unfolding descends_iff by blast
      with m show "rk a' < m" by simp
    qed
    with "2.IH"(1) [OF Some m(1)] "2.prems"(1)
    have "\<exists>s1. dependArray_fuel m ys (depend_elem e s) = Some s1"
      by (simp add: descends_heap [OF h1] below_heap [OF h1])
    with Some m show ?thesis by simp
  qed
  then obtain s1 where
    s1: "(case array_items s e of
            None \<Rightarrow> Some (depend_elem e s)
          | Some xs \<Rightarrow> (case n of 0 \<Rightarrow> None | Suc m \<Rightarrow> dependArray_fuel m xs (depend_elem e s)))
         = Some s1"
    by blast
  have "registered s s1"
  proof (cases "array_items s e")
    case None
    with s1 show ?thesis by (auto simp: registered_depend_elem)
  next
    case (Some ys)
    with s1 obtain m where "dependArray_fuel m ys (depend_elem e s) = Some s1"
      by (cases n) auto
    from dependArray_registered [OF this] registered_depend_elem show ?thesis
      by (rule registered_trans [rotated])
  qed
  then have h2: "heap s1 = heap s" by (simp add: registered_fields)
  from "2.prems" have "below s rk es n" by (auto simp: below_iff)
  with "2.IH"(2) [OF s1] "2.prems"(1) have "\<exists>s'. dependArray_fuel n es s1 = Some s'"
    by (simp add: descends_heap [OF h2] below_heap [OF h2])
  with s1 show ?case by simp
qed

lemma calm_below: "calm s rk r \<Longrightarrow> target s \<noteq> None \<Longrightarrow> r \<le> n \<Longrightarrow> below s rk xs n"
  unfolding calm_def below_iff by (auto simp: lookup_Some)

lemma calm_registered: "registered s s' \<Longrightarrow> calm s' rk r = calm s rk r"
  by (rule calm_heap) (simp_all add: registered_fields)

lemma collect_unset: "target s = None \<Longrightarrow> collect n d c v s = Some (s, v)"
  by (simp add: collect_def)

lemma collect_registered:
  assumes "collect n d c v s = Some (s', x)"
  shows "registered s s' \<and> x = v"
proof (cases "target s")
  case None
  with assms show ?thesis by (simp add: collect_def registered_refl)
next
  case (Some w)
  note r1 = registered_depend [of s d]
  note r2 = registered_trans [OF r1 registered_depend, of "ob_dep (observers s (the c))"]
  show ?thesis
  proof (cases c)
    case None
    with assms Some r1 show ?thesis by (auto simp: collect_def)
  next
    case c: (Some i)
    show ?thesis
    proof (cases "array_items s v")
      case None
      with assms Some c r2 show ?thesis by (auto simp: collect_def)
    next
      case xs: (Some xs)
      with assms Some c have
        "dependArray_fuel n xs (depend (ob_dep (observers s i)) (depend d s)) = Some s'" "x = v"
        by (auto simp: collect_def split: option.splits)
      with dependArray_registered [OF this(1)] r2 c show ?thesis
        by (auto intro: registered_trans)
    qed
  qed
qed

lemma collect_first:
  assumes "target s = Some w" and "collect n d c v s = Some (s', x)"
  shows "\<exists>ds. s' = s\<lparr>calls := calls s @ AddDep w d # map (AddDep w) ds\<rparr>"
proof -
  let ?s1 = "s\<lparr>calls := calls s @ [AddDep w d]\<rparr>"
  from assms(1) have d1: "depend d s = ?s1" by (simp add: depend_def)
  have t1: "target ?s1 = Some w" using assms(1) by simp
  have "registered ?s1 s'"
  proof (cases c)
    case None
    with assms d1 show ?thesis by (auto simp: collect_def registered_refl)
  next
    case c: (Some i)
    show ?thesis
    proof (cases "array_items s v")
      case None
      with assms c d1 show ?thesis by (auto simp: collect_def registered_depend)
    next
      case xs: (Some xs)
      with assms c d1 have
        "dependArray_fuel n xs (depend (ob_dep (observers s i)) ?s1) = Some s'"
        by (auto simp: collect_def split: option.splits)
      from dependArray_registered [OF this] registered_depend show ?thesis
        by (rule registered_trans [rotated])
    qed
  qed
  with t1 obtain ds where "s' = ?s1\<lparr>calls := calls ?s1 @ map (AddDep w) ds\<rparr>"
    by (auto simp: registered_def)
  then show ?thesis by auto
qed

lemma collect_returns:
  assumes "calm s rk r" and "r \<le> n"
  shows "\<exists>s'. collect n d c v s = Some (s', v)"
proof (cases "target s")
  case None
  then show ?thesis by (simp add: collect_def)
next
  case (Some w)
  show ?thesis
  proof (cases c)
    case None
    with Some show ?thesis by (simp add: collect_def)
  next
    case c: (Some i)
    show ?thesis
    proof (cases "array_items s v")
      case None
      with Some c show ?thesis by (simp add: collect_def)
    next
      case xs: (Some xs)
      let ?s2 = "depend (ob_dep (observers s i)) (depend d s)"
      have r: "registered s ?s2"
        using registered_depend registered_depend by (rule registered_trans)
      then have h: "heap ?s2 = heap s" by (simp add: registered_fields)
      from assms Some have "descends s rk" "below s rk xs n"
        by (auto simp: calm_def intro: calm_below [OF assms(1)])
      then have "\<exists>s'. dependArray_fuel n xs ?s2 = Some s'"
        by (intro dependArray_returns [where rk = rk])
           (simp_all add: descends_heap [OF h] below_heap [OF h])
      with Some c xs show ?thesis by (auto simp: collect_def)
    qed
  qed
qed

lemma current_registered:
  assumes "\<And>acc s' x. found = Some acc \<Longrightarrow> acc_get acc \<Longrightarrow>
              reactiveGetter_fuel n acc s = Some (s', x) \<Longrightarrow> registered s s' \<and> x = value_of acc"
    and "current n found v s = Some (s', x)"
  shows "registered s s' \<and>
         x = (case found of None \<Rightarrow> v | Some acc \<Rightarrow> if acc_get acc then value_of acc else v)"
  using assms by (auto simp: current_def registered_refl split: option.splits if_splits)

lemma reactiveGetter_current:
  "reactiveGetter_fuel n (Closure d v c cs sh found) s =
     (case current n found v s of None \<Rightarrow> None | Some r \<Rightarrow> collect n d c (snd r) (fst r))"
  by (simp add: current_def)

lemma getter_registered:
  "reactiveGetter_fuel n acc s = Some (s', x) \<Longrightarrow> registered s s' \<and> x = value_of acc"
proof (induction n acc s arbitrary: s' x rule: reactiveGetter_fuel.induct)
  case (1 n g st c s)
  then show ?case by (auto simp: registered_refl)
next
  case (2 n d v childOb customSetter shallow found s)
  from "2.prems" obtain r where
    r: "current n found v s = Some r" and c: "collect n d childOb (snd r) (fst r) = Some (s', x)"
    unfolding reactiveGetter_current by (auto split: option.splits)
  have "registered s (fst r) \<and>
        snd r = (case found of None \<Rightarrow> v | Some acc \<Rightarrow> if acc_get acc then value_of acc else v)"
    by (rule current_registered [where n = n]) (use r "2.IH" in auto)
  with collect_registered [OF c] show ?case
    by (auto intro: registered_trans)
qed

lemma getter_unset: "target s = None \<Longrightarrow> reactiveGetter_fuel n acc s = Some (s, value_of acc)"
  by (induction n acc s rule: reactiveGetter_fuel.induct)
     (auto simp: collect_unset split: option.splits)

lemma getter_returns:
  "calm s rk r \<Longrightarrow> r \<le> n \<Longrightarrow> \<exists>s'. reactiveGetter_fuel n acc s = Some (s', value_of acc)"
proof (induction n acc s rule: reactiveGetter_fuel.induct)
  case (1 n g st c s)
  then show ?case by simp
next
  case (2 n d v childOb customSetter shallow found s)
  have "\<exists>s1. current n found v s = Some (s1, value_of (Closure d v childOb customSetter shallow found))
           \<and> registered s s1"
  proof (cases found)
    case None
    then show ?thesis by (simp add: current_def registered_refl)
  next
    case (Some acc)
    show ?thesis
    proof (cases "acc_get acc")
      case True
      from "2.IH" [OF Some True "2.prems"] obtain s1 where
        "reactiveGetter_fuel n acc s = Some (s1, value_of acc)" by blast
      with getter_registered [OF this] Some True show ?thesis by (simp add: current_def)
    next
      case False
      with Some show ?thesis by (simp add: current_def registered_refl)
    qed
  qed
  then obtain s1 where
    s1: "current n found v s = Some (s1, value_of (Closure d v childOb customSetter shallow found))"
    and r: "registered s s1" by blast
  from r "2.prems"(1) have "calm s1 rk r" by (simp add: calm_registered)
  from collect_returns [OF this "2.prems"(2)] s1 show ?case
    unfolding reactiveGetter_current by auto
qed

lemma get_registered: "get_fuel n s a k = Some (s', x) \<Longrightarrow> registered s s'"
  by (auto simp: get_fuel_def registered_refl getter_registered
      split: option.splits property.splits if_splits)

lemma get_returns: "calm s rk r \<Longrightarrow> r \<le> n \<Longrightarrow> \<exists>x. get_fuel n s a k = Some x"
  using getter_returns [of s rk r n]
  by (fastforce simp: get_fuel_def split: option.splits property.splits)

section \<open>observe: what it leaves alone, and when it returns\<close>

lemma same_shape_refl: "same_shape ob ob"
  by (simp add: same_shape_def)

lemma same_shape_trans: "same_shape x y \<Longrightarrow> same_shape y z \<Longrightarrow> same_shape x z"
  by (auto simp: same_shape_def)

lemma frame_refl: "frame s s"
  by (simp add: frame_def same_shape_refl)

lemma frame_trans:
  assumes "frame s s'" and "frame s' s''"
  shows "frame s s''"
proof -
  from assms obtain cs cs' where
    "calls s' = calls s @ cs" "filter is_signal cs = []"
    "calls s'' = calls s' @ cs'" "filter is_signal cs' = []"
    by (auto simp: frame_def)
  then have "calls s'' = calls s @ (cs @ cs') \<and> filter is_signal (cs @ cs') = []" by simp
  then have calls: "\<exists>cs. calls s'' = calls s @ cs \<and> filter is_signal cs = []" by blast
  have shape: "same_shape (heap s ! b) (heap s'' ! b)" if "b < length (heap s)" for b
    using assms that by (auto simp: frame_def intro: same_shape_trans)
  from assms have rest:
    "length (heap s'') = length (heap s)" "uid s \<le> uid s''" "\<forall>d < uid s. subs s'' d = subs s d"
    "nextOb s \<le> nextOb s''"
    "\<forall>i < nextOb s. ob_value (observers s'' i) = ob_value (observers s i) \<and>
                     ob_dep (observers s'' i) = ob_dep (observers s i)"
    "target s'' = target s" "targetStack s'' = targetStack s"
    "shouldObserve s'' = shouldObserve s" "production s'' = production s"
    "configAsync s'' = configAsync s" "serverRendering s'' = serverRendering s"
    by (auto simp: frame_def)
  with calls shape show ?thesis
    unfolding frame_def by blast
qed

lemma registered_frame: "registered s s' \<Longrightarrow> frame s s'"
  using registered_calls [of s s'] registered_fields [of s s']
  by (auto simp: frame_def same_shape_refl)

lemma frame_newDep: "frame s (snd (newDep s))"
  by (simp add: frame_def newDep_def same_shape_refl)

lemma frame_update_obj:
  assumes "a < length (heap s) \<Longrightarrow> same_shape (heap s ! a) (f (heap s ! a))"
  shows "frame s (update_obj a f s)"
proof -
  have "same_shape (heap s ! b) ((heap s)[a := f (heap s ! a)] ! b)" if "b < length (heap s)" for b
    using that assms by (cases "b = a") (simp_all add: same_shape_refl)
  then show ?thesis
    by (simp add: frame_def update_obj_def)
qed

lemma frame_newObserver:
  "lookup s a = Some ob \<Longrightarrow> marker ob = None \<Longrightarrow> frame s (snd (newObserver a s))"
  by (auto simp: frame_def newObserver_def newDep_def update_obj_def lookup_Some Let_def
      nth_list_update same_shape_def)

lemma frame_install: "frame s (install a k d p v cs sh c s)"
  unfolding install_def
  by (rule frame_update_obj) (simp add: same_shape_def defineProperty_def)

lemma frame_countRoot: "frame s (countRoot r ob s)"
  by (auto simp: frame_def countRoot_def same_shape_refl split: option.splits)

lemma initial_val_registered:
  "initial_val n s a p k va = Some r \<Longrightarrow> registered s (fst r)"
  using get_registered [of n s a k "fst r" "snd r"]
  by (auto simp: initial_val_def registered_refl split: option.splits if_splits)

lemma frame_fuel:
  "observe_fuel n s v r = Some x \<Longrightarrow> frame s (fst x)"
  "lookup s a = Some ob \<Longrightarrow> marker ob = None \<Longrightarrow> Observer_fuel n s a ob = Some y \<Longrightarrow>
     frame s (fst y)"
  "observeArray_fuel n s vs = Some s' \<Longrightarrow> frame s s'"
  "walk_fuel n s a ks = Some s' \<Longrightarrow> frame s s'"
  "defineReactive_fuel n s a k va cs sh = Some s' \<Longrightarrow> frame s s'"
proof (induction n s v r and n s a ob and n s vs and n s a ks and n s a k va cs sh
    arbitrary: x and y and s' and s' and s'
    rule: observe_fuel_Observer_fuel_observeArray_fuel_walk_fuel_defineReactive_fuel.induct)
  case (1 s v asRootData)
  then show ?case by simp
next
  case (2 n s v asRootData)
  show ?case
  proof (cases "isObject s v")
    case None
    with "2.prems" show ?thesis by (auto simp: frame_refl)
  next
    case (Some p)
    note obj = isObject_Some [THEN iffD1, OF Some]
    show ?thesis
    proof (cases "kind (snd p) = VNode \<or> marker (snd p) \<noteq> None \<or> \<not> observable s (fst p) (snd p)")
      case True
      with "2.prems" Some show ?thesis
        by (auto simp: frame_refl frame_countRoot split: option.splits if_splits)
    next
      case False
      with "2.prems" Some obtain y where
        y: "Observer_fuel n s (fst p) (snd p) = Some y"
        and x: "x = (countRoot asRootData (Some (snd y)) (fst y), Some (snd y))"
        by (auto split: option.splits)
      from False have "frame s (fst y)"
        using "2.IH" [OF Some _ _ _ _ _ y] obj by simp
      with x show ?thesis
        by (auto intro: frame_trans frame_countRoot)
    qed
  qed
next
  case (3 n s a ob)
  note [simp] = Observer_fuel.simps
  show ?case
  proof (cases "kind ob = Array")
    case True
    with "3.prems" obtain s2 where
      s2: "observeArray_fuel n (snd (newObserver a s)) (map item (elems ob)) = Some s2"
      and y: "fst y = s2"
      by (auto split: option.splits)
    from "3.IH"(1) [OF True s2] frame_newObserver [OF "3.prems"(1,2)] y show ?thesis
      by (auto intro: frame_trans)
  next
    case False
    with "3.prems" obtain s2 where
      s2: "walk_fuel n (snd (newObserver a s)) a (keys ob) = Some s2" and y: "fst y = s2"
      by (auto split: option.splits)
    from "3.IH"(2) [OF False s2] frame_newObserver [OF "3.prems"(1,2)] y show ?thesis
      by (auto intro: frame_trans)
  qed
next
  case (4 n s)
  then show ?case by (simp add: frame_refl)
next
  case (5 n s v vs)
  from "5.prems" obtain r where
    r: "observe_fuel n s v False = Some r" and s': "observeArray_fuel n (fst r) vs = Some s'"
    by (auto split: option.splits)
  from "5.IH"(1) [OF r] "5.IH"(2) [OF r s'] show ?case
    by (rule frame_trans)
next
  case (6 n s a)
  then show ?case by (simp add: frame_refl)
next
  case (7 n s a k ks)
  from "7.prems" obtain s1 where
    s1: "defineReactive_fuel n s a k None False False = Some s1"
    and s': "walk_fuel n s1 a ks = Some s'"
    by (auto split: option.splits)
  from "7.IH"(1) [OF s1] "7.IH"(2) [OF s1 s'] show ?case
    by (rule frame_trans)
next
  case (8 n s a k valArg customSetter shallow)
  note [simp] = defineReactive_fuel.simps
  show ?case
  proof (cases "lookup s a")
    case None
    with "8.prems" show ?thesis by (auto simp: frame_newDep)
  next
    case (Some ob)
    show ?thesis
    proof (cases "nonconfigurable (getOwnProperty ob k)")
      case True
      with "8.prems" Some show ?thesis by (auto simp: frame_newDep)
    next
      case nc: False
      with "8.prems" Some obtain r1 where
        r1: "initial_val n (snd (newDep s)) a (getOwnProperty ob k) k valArg = Some r1"
        by (auto split: option.splits)
      from initial_val_registered [OF r1] have f1: "frame s (fst r1)"
        by (auto intro: frame_trans [OF frame_newDep] registered_frame)
      show ?thesis
      proof (cases shallow)
        case True
        with "8.prems" Some nc r1 f1 show ?thesis
          by (auto intro: frame_trans [OF _ frame_install])
      next
        case False
        with "8.prems" Some nc r1 obtain r where
          r: "observe_fuel n (fst r1) (snd r1) False = Some r"
          and s': "s' = install a k (fst (newDep s)) (under_of (getOwnProperty ob k))
                     (snd r1) customSetter shallow (snd r) (fst r)"
          by (auto split: option.splits)
        from "8.IH" [OF Some nc r1 False r] have "frame (fst r1) (fst r)" .
        with s' f1 show ?thesis
          by (auto intro: frame_trans [OF _ frame_install] frame_trans)
      qed
    qed
  qed
qed

lemma frame_array_at:
  assumes "frame s s'"
  shows "array_at s' v = array_at s v"
proof (cases v)
  case (Ref a)
  with assms show ?thesis
    by (auto simp: array_at_def isObject_def lookup_def frame_def same_shape_def)
qed (simp_all add: array_at_def isObject_def)

lemma frame_below:
  assumes "frame s s'"
  shows "below s' rk xs n = below s rk xs n"
  by (simp add: below_def frame_array_at [OF assms])

lemma frame_calm:
  assumes "frame s s'"
  shows "calm s' rk r = calm s rk r"
proof -
  from assms have
    len: "length (heap s') = length (heap s)" and tg: "target s' = target s"
    and sh: "\<And>b. b < length (heap s) \<Longrightarrow>
      kind (heap s' ! b) = kind (heap s ! b) \<and> elems (heap s' ! b) = elems (heap s ! b)"
    by (auto simp: frame_def same_shape_def)
  then show ?thesis
    by (auto simp: calm_def descends_def frame_below [OF assms])
qed

lemma filter_update_same:
  "P (f (xs ! a)) = P (xs ! a) \<Longrightarrow>
     length (filter P (xs[a := f (xs ! a)])) = length (filter P xs)"
proof (induction xs arbitrary: a)
  case Nil
  then show ?case by simp
next
  case (Cons x xs)
  then show ?case by (cases a) simp_all
qed

lemma filter_update_less:
  "a < length xs \<Longrightarrow> P (xs ! a) \<Longrightarrow> \<not> P y \<Longrightarrow>
     Suc (length (filter P (xs[a := y]))) = length (filter P xs)"
proof (induction xs arbitrary: a)
  case Nil
  then show ?case by simp
next
  case (Cons x xs)
  then show ?case by (cases a) simp_all
qed

lemma unobserved_heap: "heap s' = heap s \<Longrightarrow> unobserved s' = unobserved s"
  by (simp add: unobserved_def)

lemma unobserved_newDep: "unobserved (snd (newDep s)) = unobserved s"
  by (simp add: unobserved_def newDep_def)

lemma unobserved_countRoot: "unobserved (countRoot r ob s) = unobserved s"
  by (simp add: unobserved_def countRoot_def split: option.splits)

lemma unobserved_install: "unobserved (install a k d p v cs sh c s) = unobserved s"
  unfolding unobserved_def install_def update_obj_def
  by (simp add: filter_update_same defineProperty_def)

lemma unobserved_newObserver:
  "lookup s a = Some ob \<Longrightarrow> marker ob = None \<Longrightarrow>
     Suc (unobserved (snd (newObserver a s))) = unobserved s"
  unfolding unobserved_def newObserver_def newDep_def update_obj_def lookup_Some
  by (simp add: Let_def filter_update_less)

text \<open>
  \<^verbatim>\<open>observe\<close> and the functions it calls return, within every bound above the number of
  objects without a marker plus the bound of the getters, when no target is set or no
  array contains itself.
\<close>

lemma progress_fuel:
  "calm s rk m \<Longrightarrow> unobserved s + m < n \<Longrightarrow>
     \<exists>x. observe_fuel n s v r = Some x \<and> unobserved (fst x) \<le> unobserved s"
  "lookup s a = Some ob \<Longrightarrow> marker ob = None \<Longrightarrow> calm s rk m \<Longrightarrow> unobserved s + m \<le> n \<Longrightarrow>
     \<exists>y. Observer_fuel n s a ob = Some y \<and> unobserved (fst y) < unobserved s"
  "calm s rk m \<Longrightarrow> unobserved s + m < n \<Longrightarrow>
     \<exists>s'. observeArray_fuel n s vs = Some s' \<and> unobserved s' \<le> unobserved s"
  "calm s rk m \<Longrightarrow> unobserved s + m < n \<Longrightarrow>
     \<exists>s'. walk_fuel n s a ks = Some s' \<and> unobserved s' \<le> unobserved s"
  "calm s rk m \<Longrightarrow> unobserved s + m < n \<Longrightarrow>
     \<exists>s'. defineReactive_fuel n s a k va cs sh = Some s' \<and> unobserved s' \<le> unobserved s"
proof (induction n s v r and n s a ob and n s vs and n s a ks and n s a k va cs sh
    rule: observe_fuel_Observer_fuel_observeArray_fuel_walk_fuel_defineReactive_fuel.induct)
  case (1 s v asRootData)
  then show ?case by simp
next
  case (2 n s v asRootData)
  show ?case
  proof (cases "isObject s v")
    case None
    then show ?thesis by simp
  next
    case (Some p)
    note obj = isObject_Some [THEN iffD1, OF Some]
    show ?thesis
    proof (cases "kind (snd p) = VNode \<or> marker (snd p) \<noteq> None \<or> \<not> observable s (fst p) (snd p)")
      case True
      with Some show ?thesis
        by (auto simp: unobserved_countRoot split: option.splits)
    next
      case False
      with "2.prems" obj "2.IH" [OF Some] obtain y where
        y: "Observer_fuel n s (fst p) (snd p) = Some y" "unobserved (fst y) < unobserved s"
        by auto
      with False Some show ?thesis
        by (simp add: unobserved_countRoot)
    qed
  qed
next
  case (3 n s a ob)
  note [simp] = Observer_fuel.simps
  from unobserved_newObserver [OF "3.prems"(1,2)] "3.prems"(4)
  have less: "unobserved (snd (newObserver a s)) + m < n"
    and eq: "Suc (unobserved (snd (newObserver a s))) = unobserved s"
    by simp_all
  from "3.prems"(3) have calm: "calm (snd (newObserver a s)) rk m"
    by (simp add: frame_calm [OF frame_newObserver [OF "3.prems"(1,2)]])
  show ?case
  proof (cases "kind ob = Array")
    case True
    from "3.IH"(1) [OF True calm less] eq True show ?thesis by auto
  next
    case False
    from "3.IH"(2) [OF False calm less] eq False show ?thesis by auto
  qed
next
  case (4 n s)
  then show ?case by simp
next
  case (5 n s v vs)
  from "5.IH"(1) [OF "5.prems"] obtain x where
    x: "observe_fuel n s v False = Some x" "unobserved (fst x) \<le> unobserved s"
    by auto
  from "5.prems"(1) have "calm (fst x) rk m"
    by (simp add: frame_calm [OF frame_fuel(1) [OF x(1)]])
  with "5.IH"(2) [OF x(1)] "5.prems" x(2) obtain s' where
    "observeArray_fuel n (fst x) vs = Some s'" "unobserved s' \<le> unobserved (fst x)"
    by auto
  with x show ?case by auto
next
  case (6 n s a)
  then show ?case by simp
next
  case (7 n s a k ks)
  from "7.IH"(1) [OF "7.prems"] obtain s1 where
    s1: "defineReactive_fuel n s a k None False False = Some s1" "unobserved s1 \<le> unobserved s"
    by auto
  from "7.prems"(1) have "calm s1 rk m"
    by (simp add: frame_calm [OF frame_fuel(5) [OF s1(1)]])
  with "7.IH"(2) [OF s1(1)] "7.prems" s1(2) obtain s' where
    "walk_fuel n s1 a ks = Some s'" "unobserved s' \<le> unobserved s1"
    by auto
  with s1 show ?case by auto
next
  case (8 n s a k valArg customSetter shallow)
  note [simp] = defineReactive_fuel.simps
  show ?case
  proof (cases "lookup s a")
    case None
    then show ?thesis by (simp add: unobserved_newDep)
  next
    case (Some ob)
    show ?thesis
    proof (cases "nonconfigurable (getOwnProperty ob k)")
      case True
      with Some show ?thesis by (auto simp: unobserved_newDep)
    next
      case nc: False
      from "8.prems"(1) have c0: "calm (snd (newDep s)) rk m"
        by (simp add: frame_calm [OF frame_newDep])
      from "8.prems"(2) have "m \<le> n" by simp
      from get_returns [OF c0 this, of a k] have
        "\<exists>r1. initial_val n (snd (newDep s)) a (getOwnProperty ob k) k valArg = Some r1"
        by (cases valArg) (auto simp: initial_val_def)
      then obtain r1 where
        r1: "initial_val n (snd (newDep s)) a (getOwnProperty ob k) k valArg = Some r1"
        by blast
      note reg = initial_val_registered [OF r1]
      from reg have u1: "unobserved (fst r1) = unobserved s"
        using unobserved_heap [of "fst r1" "snd (newDep s)"]
        by (simp add: registered_fields unobserved_newDep)
      from reg c0 have c1: "calm (fst r1) rk m" by (simp add: calm_registered)
      show ?thesis
      proof (cases shallow)
        case True
        with Some nc r1 u1 show ?thesis by (simp add: unobserved_install)
      next
        case False
        from "8.IH" [OF Some nc r1 False c1] "8.prems"(2) u1 obtain x where
          "observe_fuel n (fst r1) (snd r1) False = Some x"
          "unobserved (fst x) \<le> unobserved s"
          by auto
        with False Some nc r1 show ?thesis by (simp add: unobserved_install)
      qed
    qed
  qed
qed

section \<open>An invariant of the states reached\<close>

lemma made_iff:
  "made s \<longleftrightarrow>
     (\<forall>b i. b < length (heap s) \<and> marker (heap s ! b) = Some i \<longrightarrow>
        i < nextOb s \<and> ob_value (observers s i) = b \<and> ob_dep (observers s i) < uid s)"
  by (auto simp: made_def split: option.splits)

lemma made_lookup:
  "made s \<Longrightarrow> lookup s a = Some ob \<Longrightarrow> marker ob = Some i \<Longrightarrow>
     i < nextOb s \<and> ob_value (observers s i) = a \<and> ob_dep (observers s i) < uid s"
  unfolding made_iff lookup_Some by blast

lemma made_initial: "\<forall>ob \<in> set h. marker ob = None \<Longrightarrow> made (initial h prd asy ssr)"
  by (simp add: made_iff initial_def)

lemma made_fields:
  "heap s' = heap s \<Longrightarrow> observers s' = observers s \<Longrightarrow> nextOb s' = nextOb s \<Longrightarrow>
     uid s' = uid s \<Longrightarrow> made s' = made s"
  by (simp add: made_iff)

lemma made_registered: "registered s s' \<Longrightarrow> made s' = made s"
  by (rule made_fields) (simp_all add: registered_fields)

lemma made_newDep: "made s \<Longrightarrow> made (snd (newDep s))"
  unfolding made_iff by (auto simp: newDep_def less_Suc_eq)

lemma made_newObserver:
  assumes "made s"
  shows "made (snd (newObserver a s))"
  unfolding made_iff
proof (intro allI impI)
  fix b i
  let ?s' = "snd (newObserver a s)"
  assume h: "b < length (heap ?s') \<and> marker (heap ?s' ! b) = Some i"
  have fields: "nextOb ?s' = Suc (nextOb s)" "uid ?s' = Suc (uid s)"
    "observers ?s' = (observers s)(nextOb s := \<lparr>ob_value = a, ob_dep = uid s, vmCount = 0\<rparr>)"
    "heap ?s' = (heap s)[a := (heap s ! a)\<lparr>marker := Some (nextOb s)\<rparr>]"
    by (simp_all add: newObserver_def newDep_def update_obj_def Let_def)
  show "i < nextOb ?s' \<and> ob_value (observers ?s' i) = b \<and> ob_dep (observers ?s' i) < uid ?s'"
  proof (cases "b = a")
    case True
    with h show ?thesis by (auto simp: fields)
  next
    case False
    with h have "b < length (heap s)" "marker (heap s ! b) = Some i"
      by (auto simp: fields)
    with assms have "i < nextOb s \<and> ob_value (observers s i) = b \<and> ob_dep (observers s i) < uid s"
      unfolding made_iff by blast
    with False show ?thesis by (simp add: fields)
  qed
qed

lemma made_update_obj:
  assumes "made s"
    and "a < length (heap s) \<Longrightarrow>
           marker (f (heap s ! a)) = None \<or> marker (f (heap s ! a)) = marker (heap s ! a)"
  shows "made (update_obj a f s)"
  unfolding made_iff
proof (intro allI impI)
  fix b i
  let ?s' = "update_obj a f s"
  have fields: "nextOb ?s' = nextOb s" "uid ?s' = uid s" "observers ?s' = observers s"
    "length (heap ?s') = length (heap s)"
    by (simp_all add: update_obj_def)
  assume h: "b < length (heap ?s') \<and> marker (heap ?s' ! b) = Some i"
  with assms(2) have "marker (heap s ! b) = Some i"
    by (cases "b = a") (auto simp: update_obj_def)
  with h assms(1) have "i < nextOb s \<and> ob_value (observers s i) = b \<and> ob_dep (observers s i) < uid s"
    unfolding made_iff fields by force
  then show "i < nextOb ?s' \<and> ob_value (observers ?s' i) = b \<and> ob_dep (observers ?s' i) < uid ?s'"
    by (simp add: fields)
qed

lemma made_install: "made s \<Longrightarrow> made (install a k d p v cs sh c s)"
  unfolding install_def by (rule made_update_obj) (simp_all add: defineProperty_def)

lemma made_countRoot: "made s \<Longrightarrow> made (countRoot r ob s)"
  unfolding made_iff by (auto simp: countRoot_def split: option.splits)

lemma made_fuel:
  "made s \<Longrightarrow> observe_fuel n s v r = Some x \<Longrightarrow> made (fst x)"
  "made s \<Longrightarrow> Observer_fuel n s a ob = Some y \<Longrightarrow> made (fst y)"
  "made s \<Longrightarrow> observeArray_fuel n s vs = Some s' \<Longrightarrow> made s'"
  "made s \<Longrightarrow> walk_fuel n s a ks = Some s' \<Longrightarrow> made s'"
  "made s \<Longrightarrow> defineReactive_fuel n s a k va cs sh = Some s' \<Longrightarrow> made s'"
proof (induction n s v r and n s a ob and n s vs and n s a ks and n s a k va cs sh
    arbitrary: x and y and s' and s' and s'
    rule: observe_fuel_Observer_fuel_observeArray_fuel_walk_fuel_defineReactive_fuel.induct)
  case (1 s v asRootData)
  then show ?case by simp
next
  case (2 n s v asRootData)
  show ?case
  proof (cases "isObject s v")
    case None
    with "2.prems" show ?thesis by auto
  next
    case (Some p)
    show ?thesis
    proof (cases "kind (snd p) = VNode \<or> marker (snd p) \<noteq> None \<or> \<not> observable s (fst p) (snd p)")
      case True
      with "2.prems" Some show ?thesis
        by (auto simp: made_countRoot split: option.splits if_splits)
    next
      case False
      with "2.prems" Some obtain y where
        y: "Observer_fuel n s (fst p) (snd p) = Some y"
        and x: "x = (countRoot asRootData (Some (snd y)) (fst y), Some (snd y))"
        by (auto split: option.splits)
      from False have "made (fst y)"
        using "2.IH" [OF Some _ _ _ "2.prems"(1) y] by simp
      with x show ?thesis
        by (simp add: made_countRoot)
    qed
  qed
next
  case (3 n s a ob)
  note [simp] = Observer_fuel.simps
  note mk = made_newObserver [OF "3.prems"(1), of a]
  show ?case
  proof (cases "kind ob = Array")
    case True
    with "3.prems" obtain s2 where
      s2: "observeArray_fuel n (snd (newObserver a s)) (map item (elems ob)) = Some s2"
      and y: "fst y = s2"
      by (auto split: option.splits)
    from "3.IH"(1) [OF True mk s2] y show ?thesis
      by simp
  next
    case False
    with "3.prems" obtain s2 where
      s2: "walk_fuel n (snd (newObserver a s)) a (keys ob) = Some s2" and y: "fst y = s2"
      by (auto split: option.splits)
    from "3.IH"(2) [OF False mk s2] y show ?thesis
      by simp
  qed
next
  case (4 n s)
  then show ?case by simp
next
  case (5 n s v vs)
  from "5.prems" obtain r where
    r: "observe_fuel n s v False = Some r" and s': "observeArray_fuel n (fst r) vs = Some s'"
    by (auto split: option.splits)
  from "5.IH"(2) [OF r "5.IH"(1) [OF "5.prems"(1) r] s'] show ?case .
next
  case (6 n s a)
  then show ?case by simp
next
  case (7 n s a k ks)
  from "7.prems" obtain s1 where
    s1: "defineReactive_fuel n s a k None False False = Some s1"
    and s': "walk_fuel n s1 a ks = Some s'"
    by (auto split: option.splits)
  from "7.IH"(2) [OF s1 "7.IH"(1) [OF "7.prems"(1) s1] s'] show ?case .
next
  case (8 n s a k valArg customSetter shallow)
  note [simp] = defineReactive_fuel.simps
  show ?case
  proof (cases "lookup s a")
    case None
    with "8.prems" show ?thesis by (auto simp: made_newDep)
  next
    case (Some ob)
    show ?thesis
    proof (cases "nonconfigurable (getOwnProperty ob k)")
      case True
      with "8.prems" Some show ?thesis by (auto simp: made_newDep)
    next
      case nc: False
      with "8.prems" Some obtain r1 where
        r1: "initial_val n (snd (newDep s)) a (getOwnProperty ob k) k valArg = Some r1"
        by (auto split: option.splits)
      from made_registered [OF initial_val_registered [OF r1]] "8.prems"(1)
      have m1: "made (fst r1)" by (simp add: made_newDep)
      show ?thesis
      proof (cases shallow)
        case True
        with "8.prems" Some nc r1 m1 show ?thesis
          by (auto simp: made_install)
      next
        case False
        with "8.prems" Some nc r1 obtain r where
          r: "observe_fuel n (fst r1) (snd r1) False = Some r"
          and s': "s' = install a k (fst (newDep s)) (under_of (getOwnProperty ob k))
                     (snd r1) customSetter shallow (snd r) (fst r)"
          by (auto split: option.splits)
        from "8.IH" [OF Some nc r1 False m1 r] have "made (fst r)" .
        with s' show ?thesis
          by (simp add: made_install)
      qed
    qed
  qed
qed

lemma made_calls: "made (s\<lparr>calls := cs\<rparr>) = made s"
  by (simp add: made_iff)

lemma made_notify: "made s \<Longrightarrow> made (notify d s)"
  by (simp add: notify_def made_calls)

lemma made_hooked: "made s \<Longrightarrow> made (hooked cs s)"
  by (simp add: hooked_def made_calls)

lemma made_store: "made s \<Longrightarrow> made (store a k f s)"
  unfolding store_def
  by (rule made_update_obj) (auto simp: defineProperty_def split: option.splits property.splits)

lemma current_registered':
  "current n found v s = Some r \<Longrightarrow> registered s (fst r)"
  using getter_registered [of n _ s "fst r" "snd r"]
  by (auto simp: current_def registered_refl split: option.splits if_splits)

lemma made_finish: "made s \<Longrightarrow> finish n a k d sh v s = Some s' \<Longrightarrow> made s'"
  by (auto simp: finish_def made_notify made_store store_closure_def dest: made_fuel(1)
      split: option.splits if_splits)

lemma made_reactiveSetter:
  "made s \<Longrightarrow> reactiveSetter_fuel n a k acc y s = Some s' \<Longrightarrow> made s'"
proof (induction n a k acc y s arbitrary: s' rule: reactiveSetter_fuel.induct)
  case (1 n a k g st c newVal s)
  then show ?case by (auto simp: store_cell_def made_store)
next
  case (2 n a k d v childOb customSetter shallow found newVal s)
  from "2.prems"(2) obtain r where r: "current n found v s = Some r"
    by (auto split: option.splits)
  from made_registered [OF current_registered' [OF r]] "2.prems"(1)
  have m1: "made (fst r)" by simp
  then have m2: "made (hooked customSetter (fst r))" by (rule made_hooked)
  show ?case
  proof (cases "unchanged newVal (snd r) \<or> has_getter found \<and> \<not> has_setter found")
    case True
    with "2.prems"(2) r m1 m2 show ?thesis by (auto split: if_splits)
  next
    case False
    with "2.prems"(2) r obtain s2 where
      s2: "(case found of
              None \<Rightarrow> Some (store_closure a k d (with_val newVal) (hooked customSetter (fst r)))
            | Some acc \<Rightarrow>
                if acc_set acc
                then reactiveSetter_fuel n a k acc newVal (hooked customSetter (fst r))
                else Some (store_closure a k d (with_val newVal) (hooked customSetter (fst r))))
           = Some s2"
      and s': "finish n a k d shallow newVal s2 = Some s'"
      by (auto split: option.splits)
    have "made s2"
    proof (cases found)
      case None
      with s2 m2 show ?thesis by (auto simp: store_closure_def made_store)
    next
      case (Some acc)
      show ?thesis
      proof (cases "acc_set acc")
        case True
        with s2 Some have "reactiveSetter_fuel n a k acc newVal (hooked customSetter (fst r)) = Some s2"
          by simp
        from "2.IH" [OF r _ _ Some True m2 this] False show ?thesis by simp
      next
        case no: False
        with s2 Some m2 show ?thesis by (auto simp: store_closure_def made_store)
      qed
    qed
    from made_finish [OF this s'] show ?thesis .
  qed
qed

lemma made_create_own: "made s \<Longrightarrow> create_own a k v s = Inr s' \<Longrightarrow> made s'"
  by (auto simp: create_own_def defineProperty_def intro!: made_update_obj split: if_splits)

lemma made_setPrototype: "made s \<Longrightarrow> setPrototype a v s = Inr s' \<Longrightarrow> made s'"
  by (auto simp: setPrototype_def intro!: made_update_obj split: val.splits if_splits)

lemma made_setLength:
  assumes "made s" and "lookup s a = Some ob" and "setLength l ob = Inr ob1"
  shows "made (update_obj a (\<lambda>_. ob1) s)"
proof (rule made_update_obj [OF assms(1)])
  from assms(3) have "marker ob1 = marker ob"
    by (auto simp: setLength_def split: if_splits)
  with assms(2) show "marker ob1 = None \<or> marker ob1 = marker (heap s ! a)"
    by (simp add: lookup_Some)
qed

lemma made_assign:
  assumes "made s" and "assign_fuel n s a k v = Some (Inr s')"
  shows "made s'"
proof -
  from assms(2) obtain ob where ob: "lookup s a = Some ob"
    by (cases "lookup s a") (auto simp: assign_fuel_def)
  show ?thesis
  proof (cases "kind ob = Array \<and> k = Name ''length''")
    case True
    with assms(2) ob obtain l ob1 where
      "setLength l ob = Inr ob1" "s' = update_obj a (\<lambda>_. ob1) s"
      by (auto simp: assign_fuel_def split: option.splits sum.splits)
    with made_setLength [OF assms(1) ob] show ?thesis by simp
  next
    case False
    show ?thesis
    proof (cases "find_prop s a k")
      case None
      with assms ob False show ?thesis
        by (auto simp: assign_fuel_def defineProperty_def
            dest: made_create_own made_setPrototype intro!: made_update_obj split: if_splits)
    next
      case (Some bp)
      show ?thesis
      proof (cases "snd bp")
        case (Data u e c)
        with assms ob False Some show ?thesis
          by (auto simp: assign_fuel_def defineProperty_def
              dest: made_create_own intro!: made_update_obj split: if_splits)
      next
        case (Acc acc e c)
        with assms ob False Some show ?thesis
          by (auto simp: assign_fuel_def dest: made_reactiveSetter split: if_splits)
      qed
    qed
  qed
qed

lemma made_splice_mutator:
  assumes "made s" and "splice_mutator_fuel n s a st dc items = Some (Inr s')"
  shows "made s'"
proof -
  from assms(2) obtain ob ob' where
    ob: "lookup s a = Some ob" "splice st dc items ob = Inr ob'"
    by (auto simp: splice_mutator_fuel_def split: option.splits sum.splits)
  then have "marker ob' = marker ob"
    by (auto simp: splice_def Let_def split: if_splits)
  with ob(1) assms(1) have "made (update_obj a (\<lambda>_. ob') s)"
    by (intro made_update_obj) (simp_all add: lookup_Some)
  with assms(2) ob show ?thesis
    by (auto simp: splice_mutator_fuel_def made_notify dest: made_fuel(3) split: option.splits)
qed

lemma with_value_Inr:
  "with_value v r = Some (Inr (s', x)) \<longleftrightarrow> r = Some (Inr s') \<and> x = v"
  by (auto simp: with_value_def split: option.splits sum.splits)

text \<open>
  Every marker is an Observer made for its object in the states that \<^verbatim>\<open>observe\<close>,
  \<^verbatim>\<open>set\<close>, \<^verbatim>\<open>del\<close>, the accessors and the functions of \<^verbatim>\<open>dep.js\<close> produce from a heap
  without markers.
\<close>

lemma made_set:
  assumes "made s" and "set_fuel n s tgt k v = Some (Inr (s', x))"
  shows "made s'"
proof -
  from assms(2) obtain a ob where ob: "isObject s tgt = Some (a, ob)"
    by (cases "isObject s tgt") (auto simp: set_fuel_def)
  then have l: "lookup s a = Some ob" by (simp add: isObject_Some)
  show ?thesis
  proof (cases "kind ob = Array \<and> isValidArrayIndex k")
    case True
    with assms(2) ob obtain ob1 where
      ob1: "setLength (max (length (elems ob)) (index_of k)) ob = Inr ob1"
      and sp: "splice_mutator_fuel n (update_obj a (\<lambda>_. ob1) s) a (index_of k) 1 [v] = Some (Inr s')"
      by (auto simp: set_fuel_def Let_def with_value_Inr split: sum.splits)
    from made_splice_mutator [OF made_setLength [OF assms(1) l ob1] sp] show ?thesis .
  next
    case False
    with assms ob show ?thesis
      by (auto simp: set_fuel_def Let_def made_notify with_value_Inr
          dest: made_assign made_fuel(5) split: sum.splits option.splits if_splits)
  qed
qed

lemma made_del:
  assumes "made s" and "del_fuel n s tgt k = Some (Inr s')"
  shows "made s'"
proof (cases tgt)
  case (Ref a)
  show ?thesis
  proof (cases "lookup s a")
    case None
    with assms Ref show ?thesis by (simp add: del_fuel_def)
  next
    case (Some ob)
    have dp: "made (update_obj a (\<lambda>_. ob') s)" if "deleteProperty k ob = Inr ob'" for ob'
    proof (rule made_update_obj [OF assms(1)])
      from that have "marker ob' = None \<or> marker ob' = marker ob"
        by (auto simp: deleteProperty_def unmark_def split: option.splits if_splits)
      with Some show "marker ob' = None \<or> marker ob' = marker (heap s ! a)"
        by (simp add: lookup_Some)
    qed
    from assms Ref Some show ?thesis
      by (auto simp: del_fuel_def made_notify dest: made_splice_mutator dp
          split: if_splits sum.splits option.splits)
  qed
qed (use assms in \<open>auto simp: del_fuel_def split: if_splits\<close>)

lemma made_getter: "made s \<Longrightarrow> reactiveGetter_fuel n acc s = Some (s', x) \<Longrightarrow> made s'"
  using made_registered [of s s'] getter_registered [of n acc s s' x] by simp

lemma made_addSub: "made s \<Longrightarrow> made (addSub d w s)"
  by (simp add: made_iff addSub_def)

lemma made_removeSub: "made s \<Longrightarrow> made (removeSub d w s)"
  by (simp add: made_iff removeSub_def)

lemma made_depend: "made s \<Longrightarrow> made (depend d s)"
  by (simp add: depend_def made_calls split: option.splits)

lemma made_pushTarget: "made s \<Longrightarrow> made (pushTarget t s)"
  by (simp add: made_iff pushTarget_def)

lemma made_popTarget: "made s \<Longrightarrow> made (popTarget s)"
  by (simp add: made_iff popTarget_def Let_def)

lemma made_toggleObserving: "made s \<Longrightarrow> made (toggleObserving b s)"
  by (simp add: made_iff toggleObserving_def)

section \<open>observe, the accessor pair, set and del: properties\<close>

subsection \<open>observe on an observed value\<close>

lemma heap_countRoot: "heap (countRoot r ob s) = heap s"
  by (simp add: countRoot_def split: option.splits)

lemma lookup_countRoot: "lookup (countRoot r ob s) a = lookup s a"
  by (simp add: lookup_heap [OF heap_countRoot])

lemma isObject_countRoot: "isObject (countRoot r ob s) v = isObject s v"
  by (simp add: isObject_heap [OF heap_countRoot])

lemma frame_lookup:
  "frame s s' \<Longrightarrow> lookup s a = Some ob \<Longrightarrow>
     \<exists>ob'. lookup s' a = Some ob' \<and> same_shape ob ob'"
  by (auto simp: frame_def lookup_Some)

lemma marker_newObserver:
  "lookup s a = Some ob \<Longrightarrow>
     \<exists>ob'. lookup (snd (newObserver a s)) a = Some ob' \<and> kind ob' = kind ob \<and>
           marker ob' = Some (fst (newObserver a s))"
  by (auto simp: newObserver_def newDep_def update_obj_def lookup_Some Let_def)

text \<open>An Observer that \<^verbatim>\<open>observe\<close> returns is the marker of the value afterwards.\<close>

lemma observe_Some_marker:
  assumes "observe_fuel n s v r = Some (s', Some i)"
  shows "\<exists>p. isObject s' v = Some p \<and> kind (snd p) \<noteq> VNode \<and> marker (snd p) = Some i"
proof -
  from assms obtain m where n: "n = Suc m" by (cases n) auto
  note fuel = assms [unfolded n]
  show ?thesis
  proof (cases "isObject s v")
    case None
    with fuel show ?thesis by simp
  next
    case (Some p)
    note obj = isObject_Some [THEN iffD1, OF Some]
    show ?thesis
    proof (cases "marker (snd p)")
      case (Some j)
      with fuel \<open>isObject s v = Some p\<close> show ?thesis
        by (cases p) (auto simp: isObject_countRoot split: if_splits)
    next
      case None
      have vn: "kind (snd p) \<noteq> VNode"
        using fuel \<open>isObject s v = Some p\<close> by (cases "kind (snd p) = VNode") simp_all
      have obs: "observable s (fst p) (snd p)"
        using fuel \<open>isObject s v = Some p\<close> None vn
        by (cases "observable s (fst p) (snd p)") simp_all
      obtain y where y: "Observer_fuel m s (fst p) (snd p) = Some y"
        using fuel \<open>isObject s v = Some p\<close> None vn obs
        by (cases "Observer_fuel m s (fst p) (snd p)") simp_all
      have eq: "countRoot r (Some (snd y)) (fst y) = s'" "snd y = i"
        using fuel \<open>isObject s v = Some p\<close> None vn obs y by auto
      note s' = eq(1) [symmetric] and i = eq(2) [symmetric]
      have "\<exists>s2. y = (s2, fst (newObserver (fst p) s)) \<and> frame (snd (newObserver (fst p) s)) s2"
      proof (cases "kind (snd p) = Array")
        case True
        with y obtain s2 where
          "observeArray_fuel m (snd (newObserver (fst p) s)) (map item (elems (snd p))) = Some s2"
          "y = (s2, fst (newObserver (fst p) s))"
          by (auto simp: Observer_fuel.simps split: option.splits)
        then show ?thesis
          using frame_fuel(3) by blast
      next
        case False
        with y obtain s2 where
          "walk_fuel m (snd (newObserver (fst p) s)) (fst p) (keys (snd p)) = Some s2"
          "y = (s2, fst (newObserver (fst p) s))"
          by (auto simp: Observer_fuel.simps split: option.splits)
        then show ?thesis
          using frame_fuel(4) by blast
      qed
      then obtain s2 where
        y2: "y = (s2, fst (newObserver (fst p) s))"
        and s2: "frame (snd (newObserver (fst p) s)) s2"
        by blast
      from marker_newObserver [OF conjunct2 [OF obj]] obtain ob1 where
        ob1: "lookup (snd (newObserver (fst p) s)) (fst p) = Some ob1"
          "kind ob1 = kind (snd p)" "marker ob1 = Some (fst (newObserver (fst p) s))"
        by auto
      from frame_lookup [OF s2 ob1(1)] obtain ob2 where
        ob2: "lookup s2 (fst p) = Some ob2" "same_shape ob1 ob2"
        by auto
      with ob1 vn have "kind ob2 \<noteq> VNode" "marker ob2 = Some (fst (newObserver (fst p) s))"
        by (auto simp: same_shape_def)
      with ob2 obj s' i y2 show ?thesis
        by (auto simp: isObject_Some isObject_countRoot lookup_countRoot
            intro!: exI [of _ "(fst p, ob2)"])
    qed
  qed
qed

lemma observe_marked:
  "isObject s v = Some p \<Longrightarrow> kind (snd p) \<noteq> VNode \<Longrightarrow> marker (snd p) = Some i \<Longrightarrow>
     observe_fuel (Suc m) s v r = Some (countRoot r (Some i) s, Some i)"
  by simp

text \<open>
  C3. When a call \<^verbatim>\<open>observe(v)\<close> has returned the Observer \<open>i\<close> (within any bound \<open>n\<close>), a
  second \<^verbatim>\<open>observe(v)\<close> returns, within every bound, the same \<open>i\<close> and leaves the state as
  it is (so it constructs no Observer and no Dep); called with \<^verbatim>\<open>asRootData\<close>, it
  returns \<open>i\<close> and only counts the root.
\<close>

theorem observe_idempotent:
  assumes "observe_fuel n s v r = Some (s', Some i)"
  shows "observe_fuel (Suc m) s' v False = Some (s', Some i) \<and>
         observe_fuel (Suc m) s' v True = Some (countRoot True (Some i) s', Some i) \<and>
         (\<exists>x. observe_fuel (Suc m) s' v r' = Some x \<and> snd x = Some i \<and>
              nextOb (fst x) = nextOb s' \<and> uid (fst x) = uid s')"
proof -
  from observe_Some_marker [OF assms] obtain p where
    p: "isObject s' v = Some p" "kind (snd p) \<noteq> VNode" "marker (snd p) = Some i"
    by auto
  have "observe_fuel (Suc m) s' v q = Some (countRoot q (Some i) s', Some i)" for q
    using p by (rule observe_marked)
  then show ?thesis
    by (simp add: countRoot_def)
qed

lemma example_observe:
  "observe_fuel 2 (initial [example_object] False False False) (Ref 0) False =
     Some (example_state, Some 0)"
proof -
  have "map_option snd (observe_fuel 2 (initial [example_object] False False False) (Ref 0) False) =
          Some (Some 0)"
    by code_simp
  then obtain x where
    "observe_fuel 2 (initial [example_object] False False False) (Ref 0) False = Some x"
    "snd x = Some 0"
    by auto
  then show ?thesis
    unfolding example_state_def by (cases x) simp
qed

theorem observe_idempotent_witness:
  "observe_fuel (Suc 0) example_state (Ref 0) False = Some (example_state, Some 0) \<and>
   (\<exists>x. observe_fuel (Suc 0) example_state (Ref 0) True = Some x \<and> snd x = Some 0 \<and>
        nextOb (fst x) = nextOb example_state)"
  using observe_idempotent [OF example_observe, of 0 True] by blast


end
